theory Spec2Isabelle
  imports Main "HOL-Library.AList" "HOL-Library.Multiset"
begin

section \<open>Data model: the cache file\<close>

text \<open>
  The cache is a JSON object \<open>{program, authority, items}\<close>. \<open>items\<close> is an object
  from string keys to item records; it is kept as an association list in the order
  in which \<open>Object.keys\<close> enumerates it. Optional fields are options
  (\<open>None\<close> is JavaScript's \<open>undefined\<close>). The keys of an object are distinct; the
  theorems about runs assume it of the list (\<open>distinct (map fst its)\<close>).
\<close>

type_synonym key = string

record item =
  name :: string
  link :: string
  onChain :: "bool option"
  verifyRun :: "bool option"

record program_rec =
  uuid :: string
  candyMachine :: "string option"
  config :: "string option"

record cache =
  program :: "program_rec option"
  authority :: "string option"
  items :: "(key \<times> item) list option"

text \<open>
  \<open>Object.keys(cacheContent.items)\<close> and \<open>cacheContent.items[k]\<close>. The sources read
  \<open>items[keys[i]]\<close> only for indices \<open>i\<close> of \<open>Array(keys.length).keys()\<close>: every such
  lookup finds its item (lemma \<open>lookups_defined\<close> below), so the \<open>TypeError\<close> of a
  field read on a missing item does not occur in a run.
\<close>

definition keys_of :: "(key \<times> item) list \<Rightarrow> key list" where
  "keys_of its = map fst its"

definition getItem :: "(key \<times> item) list \<Rightarrow> key \<Rightarrow> item" where
  "getItem its k = the (map_of its k)"

section \<open>Batching\<close>

text \<open>\<open>Array.from(Array(n).keys())\<close>: the indices \<open>0, ..., n - 1\<close>.\<close>

definition array_keys :: "nat \<Rightarrow> nat list" where
  "array_keys n = [0..<n]"

text \<open>\<open>xs.slice(a, b)\<close> for \<open>0 \<le> a\<close>, \<open>0 \<le> b\<close>.\<close>

definition slice :: "'a list \<Rightarrow> nat \<Rightarrow> nat \<Rightarrow> 'a list" where
  "slice xs a b = take (b - a) (drop a xs)"

text \<open>
  Modelled from the spec: \<open>chunks\<close> of \<open>helpers/various\<close>, which is imported by both
  source files and is not among the sources. The spec's Batcher
  partitions an ordered index range into fixed-size slices, in the original order,
  each of at most the outer size, covering the range; an empty range gives no
  slice.
\<close>

function chunks :: "'a list \<Rightarrow> nat \<Rightarrow> 'a list list" where
  "chunks array sz =
     (if sz = 0 \<or> array = [] then []
      else slice array 0 sz # chunks (drop sz array) sz)"
  by pat_completeness auto
termination
  by (relation "measure (\<lambda>(array, sz). length array)") auto

declare chunks.simps [simp del]

text \<open>
  The values that \<open>indexes\<close> takes in
  \<open>for (let offset = 0; offset < allIndexesInSlice.length; offset += 10)\<close>,
  from a given offset on.
\<close>

function batches :: "nat list \<Rightarrow> nat \<Rightarrow> nat list list" where
  "batches allIndexesInSlice offset =
     (if offset < length allIndexesInSlice
      then slice allIndexesInSlice offset (offset + 10)
             # batches allIndexesInSlice (offset + 10)
      else [])"
  by pat_completeness auto
termination
  by (relation "measure (\<lambda>(allIndexesInSlice, offset). length allIndexesInSlice - offset)") auto

declare batches.simps [simp del]

text \<open>The outer chunks of \<open>totalCount\<close> records, each with its inner batches.\<close>

definition partition_batches :: "nat \<Rightarrow> nat list list list" where
  "partition_batches totalCount =
     map (\<lambda>allIndexesInSlice. batches allIndexesInSlice 0) (chunks (array_keys totalCount) 1000)"

section \<open>The two versions of \<open>addConfigLines\<close>\<close>

text \<open>
  \<open>ConfigV1\<close> is \<open>addConfigLines\<close> of \<open>src/unnamed/part_000\<close> (the remote account is
  \<open>cacheContent.program.config\<close>); \<open>CandyMachineV2\<close> is \<open>addConfigLines\<close> of
  \<open>lorelabs-cli-v2.ts\<close> (the remote account is \<open>cacheContent.program.candyMachine\<close>,
  and a committed item also gets \<open>verifyRun = false\<close>).
\<close>

datatype version = ConfigV1 | CandyMachineV2

datatype error = TypeError | Error string | WalletError | RemoteError | SaveError

fun account_of :: "version \<Rightarrow> program_rec \<Rightarrow> string option" where
  "account_of ConfigV1 p = config p"
| "account_of CandyMachineV2 p = candyMachine p"

text \<open>\<open>cacheContent.items[keys[i]].onChain || false\<close>\<close>

definition isOnChain :: "key list \<Rightarrow> (key \<times> item) list \<Rightarrow> nat \<Rightarrow> bool" where
  "isOnChain ks its i = (case onChain (getItem its (ks ! i)) of Some b \<Rightarrow> b | None \<Rightarrow> False)"

text \<open>\<open>cacheContent.items[k].field = value\<close>, as an update of the record stored under \<open>k\<close>.\<close>

definition assign :: "key \<Rightarrow> (item \<Rightarrow> item) \<Rightarrow> (key \<times> item) list \<Rightarrow> (key \<times> item) list" where
  "assign k f its = AList.update k (f (getItem its k)) its"

text \<open>The body of \<open>indexes.forEach(i => ...)\<close> after a successful call, and the loop.\<close>

fun mark_committed :: "version \<Rightarrow> key list \<Rightarrow> (key \<times> item) list \<Rightarrow> nat \<Rightarrow> (key \<times> item) list" where
  "mark_committed ConfigV1 ks its i = assign (ks ! i) (\<lambda>it. it\<lparr>onChain := Some True\<rparr>) its"
| "mark_committed CandyMachineV2 ks its i =
     assign (ks ! i) (\<lambda>it. it\<lparr>verifyRun := Some False\<rparr>)
       (assign (ks ! i) (\<lambda>it. it\<lparr>onChain := Some True\<rparr>) its)"

definition forEach :: "version \<Rightarrow> key list \<Rightarrow> nat list \<Rightarrow> (key \<times> item) list \<Rightarrow> (key \<times> item) list" where
  "forEach v ks indexes its = foldl (mark_committed v ks) its indexes"

text \<open>
  One call of \<open>anchorProgram.rpc.addConfigLines(ind, configs, {accounts, signers})\<close>.
  \<open>indexes\<close> records the batch the call is made for; \<open>ind\<close> is \<open>keys[indexes[0]]\<close>,
  \<open>configs\<close> the \<open>(uri, name)\<close> pairs in the order of the batch, \<open>account\<close> the
  remote account (\<open>candyMachine\<close> or \<open>config\<close>). The authority and the signer are
  the wallet in every call.
\<close>

record call =
  indexes :: "nat list"
  ind :: key
  configs :: "(string \<times> string) list"
  account :: string

definition request :: "string \<Rightarrow> key list \<Rightarrow> (key \<times> item) list \<Rightarrow> nat list \<Rightarrow> call" where
  "request acct ks its ixs =
     \<lparr>indexes = ixs, ind = ks ! (ixs ! 0),
      configs = map (\<lambda>i. (link (getItem its (ks ! i)), name (getItem its (ks ! i)))) ixs,
      account = acct\<rparr>"

text \<open>
  The environment of a run. The chunk tasks started by \<open>Promise.all\<close> interleave at
  their \<open>await\<close>s: at the \<open>n\<close>-th reply, \<open>pick n\<close> selects which of the calls in flight
  is answered, \<open>rpc_ok n\<close> says whether it resolves or rejects, and \<open>save_ok n\<close>
  whether the \<open>saveCache\<close> that follows succeeds or throws. The final \<open>saveCache\<close> of
  the \<open>finally\<close> block takes \<open>save_ok\<close> at the number of replies of the run.
\<close>

record env =
  pick :: "nat \<Rightarrow> nat"
  rpc_ok :: "nat \<Rightarrow> bool"
  save_ok :: "nat \<Rightarrow> bool"

text \<open>
  The state of a run: the items of \<open>cacheContent\<close> in memory, the items of the cache
  file, the flag \<open>addConfigSuccessful\<close>, one task \<open>(allIndexesInSlice, offset)\<close> per
  chunk (a task with \<open>offset < allIndexesInSlice.length\<close> awaits the reply for the
  batch at \<open>offset\<close>; otherwise its loop has ended), the calls sent so far, the
  batches whose call resolved and those whose call rejected, the batches logged
  as failed by \<open>console.error\<close>, and the number of replies so far.
\<close>

record state =
  content :: "(key \<times> item) list"
  cacheFile :: "(key \<times> item) list"
  addConfigSuccessful :: bool
  tasks :: "(nat list \<times> nat) list"
  sent :: "call list"
  resolved :: "nat list list"
  rejected :: "nat list list"
  failed :: "nat list list"
  clock :: nat

text \<open>
  The loop of one chunk from \<open>offset\<close> on, up to its next \<open>await\<close>: batches whose
  indices are all on chain are skipped. The result is the offset of the batch to
  send, or an offset beyond the slice when the loop ends.
\<close>

function advance :: "key list \<Rightarrow> (key \<times> item) list \<Rightarrow> nat list \<Rightarrow> nat \<Rightarrow> nat" where
  "advance ks its allIndexesInSlice offset =
     (if offset < length allIndexesInSlice then
        (let ixs = slice allIndexesInSlice offset (offset + 10);
             onChainL = filter (isOnChain ks its) ixs
         in if length onChainL \<noteq> length ixs then offset
            else advance ks its allIndexesInSlice (offset + 10))
      else offset)"
  by pat_completeness auto
termination
  by (relation "measure (\<lambda>(ks, its, allIndexesInSlice, offset). length allIndexesInSlice - offset)") auto

declare advance.simps [simp del]

text \<open>Run a task from \<open>offset\<close> to its next \<open>await\<close>, sending the call if there is one.\<close>

definition resume :: "string \<Rightarrow> key list \<Rightarrow> nat list \<Rightarrow> nat \<Rightarrow> state \<Rightarrow> nat \<times> state" where
  "resume acct ks allIndexesInSlice offset s =
     (let offset' = advance ks (content s) allIndexesInSlice offset
      in (offset',
          if offset' < length allIndexesInSlice
          then s\<lparr>sent := sent s @ [request acct ks (content s)
                                     (slice allIndexesInSlice offset' (offset' + 10))]\<rparr>
          else s))"

text \<open>
  What follows the \<open>await\<close> for the batch \<open>ixs\<close>, at reply number \<open>clock s\<close>: on success
  the \<open>forEach\<close> and \<open>saveCache\<close>; the \<open>catch\<close> of the inner \<open>try\<close> takes a rejected
  call and a throwing \<open>saveCache\<close> alike.
\<close>

definition settle :: "version \<Rightarrow> key list \<Rightarrow> env \<Rightarrow> nat list \<Rightarrow> state \<Rightarrow> state" where
  "settle v ks e ixs s =
     (if rpc_ok e (clock s) then
        (let s' = s\<lparr>content := forEach v ks ixs (content s), resolved := resolved s @ [ixs]\<rparr>
         in if save_ok e (clock s) then s'\<lparr>cacheFile := content s'\<rparr>
            else s'\<lparr>addConfigSuccessful := False, failed := failed s' @ [ixs]\<rparr>)
      else s\<lparr>addConfigSuccessful := False, rejected := rejected s @ [ixs],
             failed := failed s @ [ixs]\<rparr>)"

text \<open>The reply for the call of task \<open>k\<close> arrives: the task runs to its next \<open>await\<close>.\<close>

definition deliver :: "version \<Rightarrow> string \<Rightarrow> key list \<Rightarrow> env \<Rightarrow> nat \<Rightarrow> state \<Rightarrow> state" where
  "deliver v acct ks e k s =
     (let (allIndexesInSlice, offset) = tasks s ! k;
          s1 = settle v ks e (slice allIndexesInSlice offset (offset + 10)) s;
          (offset', s2) = resume acct ks allIndexesInSlice (offset + 10) s1
      in s2\<lparr>tasks := (tasks s2)[k := (allIndexesInSlice, offset')], clock := Suc (clock s2)\<rparr>)"

definition awaiting :: "state \<Rightarrow> nat list" where
  "awaiting s = filter (\<lambda>k. snd (tasks s ! k) < length (fst (tasks s ! k))) [0..<length (tasks s)]"

definition remaining :: "state \<Rightarrow> nat" where
  "remaining s = sum_list (map (\<lambda>(allIndexesInSlice, offset). length allIndexesInSlice - offset) (tasks s))"

text \<open>
  The event loop: while a call is in flight, the environment answers one of them.
  Every reply moves one task forward, so the run ends whatever the environment does.
\<close>

function drive :: "version \<Rightarrow> string \<Rightarrow> key list \<Rightarrow> env \<Rightarrow> state \<Rightarrow> state" where
  "drive v acct ks e s =
     (let w = awaiting s
      in if w = [] then s
         else drive v acct ks e (deliver v acct ks e (w ! (pick e (clock s) mod length w)) s))"
  by pat_completeness auto
termination
proof (relation "measure (\<lambda>(v, acct, ks, e, s). remaining s)")
  show "wf (measure (\<lambda>(v, acct, ks, e, s). remaining s))"
    by simp
next
  fix v :: version and acct :: string and ks :: "key list" and e :: env and s :: state
    and w :: "nat list"
  assume w: "w = awaiting s" and ne: "w \<noteq> []"
  define k where "k = w ! (pick e (clock s) mod length w)"
  obtain sl off where t: "tasks s ! k = (sl, off)"
    by (cases "tasks s ! k")
  have "k \<in> set (awaiting s)"
    using w ne by (simp add: k_def)
  with t have k: "k < length (tasks s)" and lt: "off < length sl"
    by (auto simp: awaiting_def)
  have ge: "offset \<le> advance ks' its xs offset" for ks' its xs offset
  proof (induction ks' its xs offset rule: advance.induct)
    case (1 ks' its xs offset)
    show ?case
    proof (cases "offset < length xs \<and> length (filter (isOnChain ks' its) (slice xs offset (offset + 10)))
                    = length (slice xs offset (offset + 10))")
      case True
      with "1.IH" have "offset + 10 \<le> advance ks' its xs (offset + 10)"
        by simp
      with True show ?thesis
        by (subst advance.simps) (simp add: Let_def)
    next
      case False
      then show ?thesis
        by (subst advance.simps) (auto simp: Let_def)
    qed
  qed
  define off' where
    "off' = advance ks (content (settle v ks e (slice sl off (off + 10)) s)) sl (off + 10)"
  have "off + 10 \<le> off'"
    unfolding off'_def by (rule ge)
  then have lt': "off < off'"
    by simp
  have ts: "tasks (deliver v acct ks e k s) = (tasks s)[k := (sl, off')]"
    by (simp add: deliver_def t resume_def settle_def Let_def off'_def)
  have old: "tasks s = take k (tasks s) @ (sl, off) # drop (Suc k) (tasks s)"
    using k t by (metis id_take_nth_drop)
  have new: "(tasks s)[k := (sl, off')] = take k (tasks s) @ (sl, off') # drop (Suc k) (tasks s)"
    using k by (rule upd_conv_take_nth_drop)
  have "remaining (deliver v acct ks e k s)
      = sum_list (map (\<lambda>(xs, n). length xs - n) (take k (tasks s))) + (length sl - off')
        + sum_list (map (\<lambda>(xs, n). length xs - n) (drop (Suc k) (tasks s)))"
    by (simp add: remaining_def ts new)
  moreover have "remaining s
      = sum_list (map (\<lambda>(xs, n). length xs - n) (take k (tasks s))) + (length sl - off)
        + sum_list (map (\<lambda>(xs, n). length xs - n) (drop (Suc k) (tasks s)))"
    unfolding remaining_def by (subst old) simp
  ultimately have "remaining (deliver v acct ks e k s) < remaining s"
    using lt lt' by linarith
  then show "((v, acct, ks, e, deliver v acct ks e (w ! (pick e (clock s) mod length w)) s),
              (v, acct, ks, e, s)) \<in> measure (\<lambda>(v, acct, ks, e, s). remaining s)"
    by (simp add: k_def)
qed

declare drive.simps [simp del]

text \<open>
  \<open>Promise.all(chunks(...).map(async allIndexesInSlice => ...))\<close>: \<open>map\<close> starts the
  tasks in the order of the chunks, each running to its first \<open>await\<close>; then the
  event loop runs until every task has ended.
\<close>

definition initial :: "(key \<times> item) list \<Rightarrow> state" where
  "initial its =
     \<lparr>content = its, cacheFile = its, addConfigSuccessful = True, tasks = [], sent = [],
      resolved = [], rejected = [], failed = [], clock = 0\<rparr>"

definition start :: "string \<Rightarrow> key list \<Rightarrow> state \<Rightarrow> nat list \<Rightarrow> state" where
  "start acct ks s allIndexesInSlice =
     (let (offset, s') = resume acct ks allIndexesInSlice 0 s
      in s'\<lparr>tasks := tasks s' @ [(allIndexesInSlice, offset)]\<rparr>)"

definition launch :: "string \<Rightarrow> key list \<Rightarrow> (key \<times> item) list \<Rightarrow> state" where
  "launch acct ks its =
     foldl (start acct ks) (initial its) (chunks (array_keys (length ks)) 1000)"

definition promise_all :: "version \<Rightarrow> env \<Rightarrow> string \<Rightarrow> (key \<times> item) list \<Rightarrow> state" where
  "promise_all v e acct its =
     (let ks = keys_of its in drive v acct ks e (launch acct ks its))"

text \<open>
  \<open>addConfigLines\<close>. The argument is what \<open>loadCache\<close> returns (\<open>None\<close> when there is
  no cache file). The result is what the caller sees (the error thrown, or the
  value printed as \<open>Done. Successful = ...\<close>), the cache file afterwards, and the
  remote calls made. Reading a field of \<open>undefined\<close> throws a \<open>TypeError\<close>; an empty
  string is falsy, as \<open>undefined\<close> is.
\<close>

definition addConfigLines ::
  "version \<Rightarrow> env \<Rightarrow> cache option \<Rightarrow> (error + bool) \<times> cache option \<times> call list" where
  "addConfigLines v e loaded =
     (case loaded of
        None \<Rightarrow> (Inl TypeError, loaded, [])
      | Some cacheContent \<Rightarrow>
          (case program cacheContent of
             None \<Rightarrow> (Inl TypeError, loaded, [])
           | Some p \<Rightarrow>
               if account_of v p = None \<or> account_of v p = Some []
               then (Inl (Error ''missing program config''), loaded, [])
               else
                 (case items cacheContent of
                    None \<Rightarrow> (Inl TypeError, loaded, [])
                  | Some its \<Rightarrow>
                      (let s = promise_all v e (the (account_of v p)) its
                       in if save_ok e (clock s)
                          then (Inr (addConfigSuccessful s),
                                Some (cacheContent\<lparr>items := Some (content s)\<rparr>), sent s)
                          else (Inl SaveError,
                                Some (cacheContent\<lparr>items := Some (cacheFile s)\<rparr>), sent s)))))"

section \<open>The command that creates the collection\<close>

text \<open>
  What the command needs from outside, all of it after its two guards:
  \<open>loadWalletKey\<close> (the wallet's public key, or it throws), the awaited set-up
  (\<open>loadCandyProgram\<close>; \<open>loadCandyProgramV2\<close> and \<open>getCandyMachineV2Config\<close> in
  \<open>lorelabs-cli-v2.ts\<close>), the remote creation (\<open>createConfig\<close> or
  \<open>createCandyMachineV2\<close>: the new \<open>uuid\<close> and address, or it rejects), and the
  \<open>saveCache\<close> after the creation, whose error the \<open>catch\<close> throws again.
\<close>

record outside =
  wallet :: "string option"
  program_loaded :: bool
  created :: "(string \<times> string) option"
  cache_saved :: bool

datatype remote = LoadCandyProgram | CreateCandyMachine nat | AddConfigLines call

fun new_program :: "version \<Rightarrow> string \<Rightarrow> string \<Rightarrow> program_rec" where
  "new_program ConfigV1 u a = \<lparr>uuid = u, candyMachine = None, config = Some a\<rparr>"
| "new_program CandyMachineV2 u a = \<lparr>uuid = u, candyMachine = Some a, config = None\<rparr>"

text \<open>
  \<open>create_candy_machine\<close> (\<open>create_candy_machine_configs\<close> in \<open>part_000\<close>), from
  \<open>loadCache(cacheName, env) || {}\<close> on. \<open>Object.keys(items)\<close> comes before the test
  \<open>!items\<close> and throws a \<open>TypeError\<close> when \<open>items\<close> is \<open>undefined\<close>.
\<close>

definition create_candy_machine ::
  "version \<Rightarrow> outside \<Rightarrow> env \<Rightarrow> cache option \<Rightarrow> (error + bool) \<times> cache option \<times> remote list" where
  "create_candy_machine v su e loaded =
     (let cacheContent =
            (case loaded of None \<Rightarrow> \<lparr>program = None, authority = None, items = None\<rparr>
                          | Some c \<Rightarrow> c)
      in if program cacheContent \<noteq> None
         then (Inl (Error ''a program existed previously. clear it our first if you intent to create a new candy machine''),
               loaded, [])
         else
           (case items cacheContent of
              None \<Rightarrow> (Inl TypeError, loaded, [])
            | Some its \<Rightarrow>
                if length (keys_of its) = 0
                then (Inl (Error ''no items in cacheContent''), loaded, [])
                else
                  (case wallet su of
                     None \<Rightarrow> (Inl WalletError, loaded, [])
                   | Some w \<Rightarrow>
                       if \<not> program_loaded su then (Inl RemoteError, loaded, [LoadCandyProgram])
                       else
                         (case created su of
                            None \<Rightarrow> (Inl RemoteError, loaded,
                                      [LoadCandyProgram, CreateCandyMachine (length (keys_of its))])
                          | Some (u, a) \<Rightarrow>
                              if \<not> cache_saved su
                              then (Inl SaveError, loaded,
                                    [LoadCandyProgram, CreateCandyMachine (length (keys_of its))])
                              else
                                (let saved = cacheContent\<lparr>program := Some (new_program v u a),
                                                          authority := Some w\<rparr>;
                                     (r, f, calls) = addConfigLines v e (Some saved)
                                 in (r, f, [LoadCandyProgram, CreateCandyMachine (length (keys_of its))]
                                           @ map AddConfigLines calls))))))"

section \<open>Notions used to state the properties\<close>

text \<open>A list of indices that is a contiguous range.\<close>

definition is_range :: "nat list \<Rightarrow> bool" where
  "is_range xs = (xs = [hd xs ..< hd xs + length xs])"

text \<open>
  What the \<open>forEach\<close> makes of one item; the items after the \<open>forEach\<close> has run for
  the indices in \<open>I\<close>; a batch that is sent (not all of its indices are on chain);
  the batches of a slice that are sent, from an offset on.
\<close>

fun committed :: "version \<Rightarrow> item \<Rightarrow> item" where
  "committed ConfigV1 it = it\<lparr>onChain := Some True\<rparr>"
| "committed CandyMachineV2 it = it\<lparr>onChain := Some True, verifyRun := Some False\<rparr>"

definition applied :: "version \<Rightarrow> (key \<times> item) list \<Rightarrow> nat set \<Rightarrow> (key \<times> item) list" where
  "applied v its I =
     map (\<lambda>i. if i \<in> I then (fst (its ! i), committed v (snd (its ! i))) else its ! i)
       [0..<length its]"

definition pending :: "key list \<Rightarrow> (key \<times> item) list \<Rightarrow> nat list \<Rightarrow> bool" where
  "pending ks its ixs = (length (filter (isOnChain ks its) ixs) \<noteq> length ixs)"

definition pendings :: "key list \<Rightarrow> (key \<times> item) list \<Rightarrow> nat list \<Rightarrow> nat \<Rightarrow> nat list list" where
  "pendings ks its sl offset = filter (pending ks its) (batches sl offset)"

text \<open>
  The indices the \<open>forEach\<close> has run for so far; the batches a task will still send
  after the one in flight; the batch of a task that is in flight.
\<close>

definition touched :: "state \<Rightarrow> nat set" where
  "touched s = \<Union>(set ` set (resolved s))"

definition later :: "key list \<Rightarrow> (key \<times> item) list \<Rightarrow> nat list \<times> nat \<Rightarrow> nat list list" where
  "later ks its t = pendings ks its (fst t) (snd t + 10)"

definition inflight :: "nat list \<times> nat \<Rightarrow> nat list list" where
  "inflight t = (if snd t < length (fst t) then [slice (fst t) (snd t) (snd t + 10)] else [])"

text \<open>
  What holds of every state of a run over the items \<open>its\<close>, once the tasks of the
  chunks \<open>chs\<close> have been started.
\<close>

definition invariant ::
  "version \<Rightarrow> string \<Rightarrow> env \<Rightarrow> (key \<times> item) list \<Rightarrow> nat list list \<Rightarrow> state \<Rightarrow> bool" where
  "invariant v acct e its chs s \<longleftrightarrow>
     map fst (tasks s) = chs
     \<and> content s = applied v its (touched s)
     \<and> (\<forall>j < length (tasks s). set (drop (snd (tasks s ! j)) (fst (tasks s ! j))) \<inter> touched s = {})
     \<and> sent s = map (request acct (keys_of its) its) (map indexes (sent s))
     \<and> mset (map indexes (sent s)) + mset (concat (map (later (keys_of its) its) (tasks s)))
         = mset (concat (map (\<lambda>sl. pendings (keys_of its) its sl 0) chs))
     \<and> mset (map indexes (sent s))
         = mset (resolved s) + mset (rejected s) + mset (concat (map inflight (tasks s)))
     \<and> set (rejected s) \<subseteq> set (failed s)
     \<and> (addConfigSuccessful s \<longleftrightarrow> (\<forall>n < clock s. rpc_ok e n \<and> save_ok e n))
     \<and> (addConfigSuccessful s \<longleftrightarrow> failed s = [])"

text \<open>All inner batches of \<open>totalCount\<close> records, in the order of the partition.\<close>

definition all_batches :: "nat \<Rightarrow> nat list list" where
  "all_batches totalCount = concat (partition_batches totalCount)"

section \<open>Concrete caches and environments\<close>

text \<open>
  The keys of the items are the decimal indices \<open>0, 1, 2, ...\<close>. \<open>example_items n f\<close>
  has \<open>n\<close> items; item \<open>i\<close> has the flags \<open>f i\<close>.
\<close>

function decimal :: "nat \<Rightarrow> string" where
  "decimal n = (if n < 10 then [char_of (48 + n)] else decimal (n div 10) @ [char_of (48 + n mod 10)])"
  by pat_completeness auto
termination
  by (relation "measure id") auto

declare decimal.simps [simp del]

definition example_items :: "nat \<Rightarrow> (nat \<Rightarrow> bool option \<times> bool option) \<Rightarrow> (key \<times> item) list" where
  "example_items n f =
     map (\<lambda>i. (decimal i, \<lparr>name = ''n'' @ decimal i, link = ''u'' @ decimal i,
                           onChain = fst (f i), verifyRun = snd (f i)\<rparr>)) [0..<n]"

definition example_cache :: "(key \<times> item) list \<Rightarrow> cache" where
  "example_cache its =
     \<lparr>program = Some \<lparr>uuid = ''uuid01'', candyMachine = Some ''candy'', config = Some ''config''\<rparr>,
      authority = Some ''wallet'', items = Some its\<rparr>"

text \<open>
  Environments that answer the calls in the order of the tasks: \<open>all_fine\<close> lets every
  call and every save succeed, \<open>reject_at R\<close> rejects the replies whose numbers are
  in \<open>R\<close>, \<open>save_fails_at S\<close> lets the saves whose numbers are in \<open>S\<close> throw.
\<close>

definition all_fine :: env where
  "all_fine = \<lparr>pick = (\<lambda>n. 0), rpc_ok = (\<lambda>n. True), save_ok = (\<lambda>n. True)\<rparr>"

definition reject_at :: "nat list \<Rightarrow> env" where
  "reject_at R = \<lparr>pick = (\<lambda>n. 0), rpc_ok = (\<lambda>n. n \<notin> set R), save_ok = (\<lambda>n. True)\<rparr>"

definition save_fails_at :: "nat list \<Rightarrow> env" where
  "save_fails_at S = \<lparr>pick = (\<lambda>n. 0), rpc_ok = (\<lambda>n. True), save_ok = (\<lambda>n. n \<notin> set S)\<rparr>"

section \<open>Batching: the partition of the index range\<close>

lemma is_range_upt: "is_range [a..<b]"
  by (cases "a < b") (auto simp: is_range_def upt_conv_Cons)

lemma is_range_drop: "is_range xs \<Longrightarrow> is_range (drop n xs)"
proof -
  assume "is_range xs"
  then obtain a b where "xs = [a..<b]"
    unfolding is_range_def by blast
  then show ?thesis
    by (simp add: is_range_upt)
qed

lemma is_range_take: "is_range xs \<Longrightarrow> is_range (take n xs)"
proof -
  assume "is_range xs"
  then obtain a b where xs: "xs = [a..<b]"
    unfolding is_range_def by blast
  have "take n [a..<b] = [a..<min b (a + n)]"
    by (cases "a + n \<le> b") (simp_all add: min_def)
  with xs show ?thesis
    by (simp add: is_range_upt)
qed

lemma concat_chunks: "0 < n \<Longrightarrow> concat (chunks xs n) = xs"
proof (induction xs n rule: chunks.induct)
  case (1 array sz)
  then show ?case
    by (subst chunks.simps) (simp add: slice_def)
qed

lemma chunks_member:
  "c \<in> set (chunks xs n) \<Longrightarrow> c \<noteq> [] \<and> length c \<le> n \<and> set c \<subseteq> set xs \<and> (is_range xs \<longrightarrow> is_range c)"
proof (induction xs n rule: chunks.induct)
  case (1 array sz)
  from "1.prems" have ne: "sz \<noteq> 0" "array \<noteq> []"
    by (subst (asm) chunks.simps, simp split: if_splits)+
  from "1.prems" ne have "c = slice array 0 sz \<or> c \<in> set (chunks (drop sz array) sz)"
    by (subst (asm) chunks.simps) simp
  then show ?case
  proof
    assume "c = slice array 0 sz"
    with ne show ?thesis
      by (auto simp: slice_def is_range_take dest: in_set_takeD)
  next
    assume "c \<in> set (chunks (drop sz array) sz)"
    with "1.IH" ne show ?thesis
      by (auto simp: is_range_drop dest: in_set_dropD)
  qed
qed

lemma concat_batches: "concat (batches sl off) = drop off sl"
proof (induction sl off rule: batches.induct)
  case (1 sl off)
  show ?case
  proof (cases "off < length sl")
    case True
    have "take 10 (drop off sl) @ drop (off + 10) sl = drop off sl"
      by (metis add.commute append_take_drop_id drop_drop)
    with True "1.IH" show ?thesis
      by (subst batches.simps) (simp add: slice_def)
  next
    case False
    then show ?thesis
      by (subst batches.simps) simp
  qed
qed

lemma batches_member:
  "b \<in> set (batches sl off) \<Longrightarrow>
   b \<noteq> [] \<and> length b \<le> 10 \<and> set b \<subseteq> set (drop off sl) \<and> (is_range sl \<longrightarrow> is_range b)"
proof (induction sl off rule: batches.induct)
  case (1 sl off)
  from "1.prems" have lt: "off < length sl"
    by (subst (asm) batches.simps) (simp split: if_splits)
  from "1.prems" lt have "b = slice sl off (off + 10) \<or> b \<in> set (batches sl (off + 10))"
    by (subst (asm) batches.simps) simp
  then show ?case
  proof
    assume "b = slice sl off (off + 10)"
    with lt show ?thesis
      by (auto simp: slice_def is_range_take is_range_drop dest: in_set_takeD)
  next
    assume "b \<in> set (batches sl (off + 10))"
    with "1.IH" lt have "b \<noteq> [] \<and> length b \<le> 10 \<and> set b \<subseteq> set (drop (off + 10) sl)
        \<and> (is_range sl \<longrightarrow> is_range b)"
      by simp
    moreover have "set (drop (off + 10) sl) \<subseteq> set (drop off sl)"
      by (metis add.commute drop_drop set_drop_subset)
    ultimately show ?thesis
      by blast
  qed
qed

lemma concat_partition_batches:
  "concat (map concat (partition_batches totalCount)) = [0..<totalCount]"
  by (simp add: partition_batches_def comp_def concat_batches concat_chunks array_keys_def)

text \<open>
  C1. For every \<open>totalCount\<close>, the inner batches of the outer chunks (outer size 1000,
  inner size 10), concatenated in order, are exactly the indices \<open>0, ..., totalCount - 1\<close>
  in increasing order (so they cover the range without gap or overlap and keep the
  order); every outer chunk has at most 1000 indices, every inner batch at most 10,
  and every inner batch is a contiguous range. For \<open>totalCount = 25\<close> there
  is one outer chunk with three inner batches, of lengths 10, 10 and 5.
\<close>

theorem partition_batches_correct:
  "concat (map concat (partition_batches totalCount)) = [0..<totalCount]
   \<and> (\<forall>chunk \<in> set (partition_batches totalCount).
        length (concat chunk) \<le> 1000
        \<and> (\<forall>b \<in> set chunk. length b \<le> 10 \<and> b = [hd b ..< hd b + length b]))
   \<and> partition_batches 25 = [[[0..<10], [10..<20], [20..<25]]]
   \<and> map (map length) (partition_batches 25) = [[10, 10, 5]]"
proof (intro conjI ballI)
  show "concat (map concat (partition_batches totalCount)) = [0..<totalCount]"
    by (rule concat_partition_batches)
next
  fix chunk assume "chunk \<in> set (partition_batches totalCount)"
  then obtain sl where sl: "sl \<in> set (chunks (array_keys totalCount) 1000)"
    and chunk: "chunk = batches sl 0"
    by (auto simp: partition_batches_def)
  from chunks_member [OF sl] show "length (concat chunk) \<le> 1000"
    by (simp add: chunk concat_batches)
  fix b assume "b \<in> set chunk"
  with chunk have b: "b \<in> set (batches sl 0)"
    by simp
  from chunks_member [OF sl] have "is_range sl"
    by (simp add: array_keys_def is_range_upt)
  with batches_member [OF b] show "length b \<le> 10" and "b = [hd b ..< hd b + length b]"
    by (simp_all add: is_range_def)
next
  show p: "partition_batches 25 = [[[0..<10], [10..<20], [20..<25]]]"
    by code_simp
  show "map (map length) (partition_batches 25) = [[10, 10, 5]]"
    by (simp add: p)
qed

theorem partition_batches_correct_witness:
  "[[0..<10], [10..<20], [20..<25]] \<in> set (partition_batches 25)
   \<and> [20..<25] \<in> set [[0..<10], [10..<20], [20..<25]]
   \<and> concat (map concat (partition_batches 25)) = [0..<25]
   \<and> length (concat [[0..<10], [10..<20], [20..<25]]) \<le> 1000
   \<and> length [20..<25] \<le> 10
   \<and> [20..<25] = [hd [20..<25] ..< hd [20..<25] + length [20..<25]]"
proof -
  have p: "partition_batches 25 = [[[0..<10], [10..<20], [20..<25]]]"
    by code_simp
  have m: "[[0..<10], [10..<20], [20..<25]] \<in> set (partition_batches 25)"
    by (simp only: p list.set insertI1)
  have n: "[20..<25] \<in> set [[0..<10], [10..<20], [20..<25]]"
    by simp
  from partition_batches_correct [of 25] m n show ?thesis
    by blast
qed

section \<open>Items by position\<close>

lemma getItem_nth:
  "distinct (map fst its) \<Longrightarrow> i < length its \<Longrightarrow> getItem its (keys_of its ! i) = snd (its ! i)"
proof -
  assume d: "distinct (map fst its)" and i: "i < length its"
  then have "(fst (its ! i), snd (its ! i)) \<in> set its"
    by simp
  with d have "map_of its (fst (its ! i)) = Some (snd (its ! i))"
    by (simp only: map_of_eq_Some_iff)
  with i show ?thesis
    by (simp add: getItem_def keys_of_def)
qed

lemma update_nth:
  "distinct (map fst its) \<Longrightarrow> i < length its \<Longrightarrow>
   AList.update (fst (its ! i)) x its = its[i := (fst (its ! i), x)]"
proof (induction its arbitrary: i)
  case Nil
  then show ?case by simp
next
  case (Cons a its)
  show ?case
  proof (cases i)
    case 0
    then show ?thesis by (cases a) simp
  next
    case (Suc j)
    with Cons.prems have j: "j < length its" and d: "distinct (map fst its)"
      and "fst (its ! j) \<in> set (map fst its)"
      by auto
    with Cons.prems have "fst a \<noteq> fst (its ! j)"
      by auto
    with Cons.IH [OF d j] Suc show ?thesis
      by (cases a) simp
  qed
qed

lemma assign_nth:
  assumes "distinct (map fst its)" "i < length its"
  shows "assign (keys_of its ! i) f its = its[i := (fst (its ! i), f (snd (its ! i)))]"
  using assms update_nth [OF assms, of "f (snd (its ! i))"]
  by (simp add: assign_def getItem_nth) (simp add: keys_of_def)

lemma mark_committed_nth:
  assumes d: "distinct (map fst its)" and i: "i < length its"
  shows "mark_committed v (keys_of its) its i = its[i := (fst (its ! i), committed v (snd (its ! i)))]"
proof (cases v)
  case ConfigV1
  with assign_nth [OF d i] show ?thesis by simp
next
  case CandyMachineV2
  let ?its = "its[i := (fst (its ! i), (snd (its ! i))\<lparr>onChain := Some True\<rparr>)]"
  have "map fst ?its = (map fst its)[i := map fst its ! i]"
    using i by (simp add: map_update)
  then have k: "map fst ?its = map fst its"
    by (simp only: list_update_id)
  then have d': "distinct (map fst ?its)" and i': "i < length ?its" and ks: "keys_of ?its = keys_of its"
    using d i by (simp_all add: keys_of_def)
  from assign_nth [OF d' i', of "\<lambda>it. it\<lparr>verifyRun := Some False\<rparr>"] i ks CandyMachineV2
  show ?thesis
    by (simp add: assign_nth [OF d i])
qed

lemma length_applied [simp]: "length (applied v its I) = length its"
  by (simp add: applied_def)

lemma nth_applied:
  "i < length its \<Longrightarrow>
   applied v its I ! i = (if i \<in> I then (fst (its ! i), committed v (snd (its ! i))) else its ! i)"
  by (simp add: applied_def)

lemma keys_applied [simp]: "keys_of (applied v its I) = keys_of its"
  by (rule nth_equalityI) (simp_all add: keys_of_def nth_applied)

lemma applied_empty [simp]: "applied v its {} = its"
  by (rule nth_equalityI) (simp_all add: nth_applied)

lemma committed_idem [simp]: "committed v (committed v it) = committed v it"
  by (cases v) simp_all

lemma mark_committed_applied:
  assumes d: "distinct (map fst its)" and i: "i < length its"
  shows "mark_committed v (keys_of its) (applied v its I) i = applied v its (insert i I)"
proof -
  have d': "distinct (map fst (applied v its I))"
    using d keys_applied [of v its I] by (simp add: keys_of_def)
  have i': "i < length (applied v its I)"
    using i by simp
  from mark_committed_nth [OF d' i', of v] have
    "mark_committed v (keys_of its) (applied v its I) i
       = (applied v its I)[i := (fst (applied v its I ! i), committed v (snd (applied v its I ! i)))]"
    by simp
  also have "\<dots> = applied v its (insert i I)"
    using i by (intro nth_equalityI) (auto simp: nth_applied nth_list_update)
  finally show ?thesis .
qed

lemma forEach_applied:
  assumes d: "distinct (map fst its)" and b: "\<forall>i \<in> set ixs. i < length its"
  shows "forEach v (keys_of its) ixs (applied v its I) = applied v its (I \<union> set ixs)"
  using b
proof (induction ixs arbitrary: I)
  case Nil
  then show ?case by (simp add: forEach_def)
next
  case (Cons i ixs)
  then have "forEach v (keys_of its) ixs (applied v its (insert i I)) = applied v its (insert i I \<union> set ixs)"
    by simp
  with Cons.prems show ?case
    by (simp add: forEach_def mark_committed_applied [OF d])
qed

lemma isOnChain_nth:
  "distinct (map fst its) \<Longrightarrow> i < length its \<Longrightarrow>
   isOnChain (keys_of its) its i = (onChain (snd (its ! i)) = Some True)"
  by (auto simp: isOnChain_def getItem_nth split: option.splits)

section \<open>The loop of one chunk\<close>

lemma advance_ge: "offset \<le> advance ks its sl offset"
proof (induction ks its sl offset rule: advance.induct)
  case (1 ks its sl offset)
  show ?case
  proof (cases "offset < length sl \<and> \<not> pending ks its (slice sl offset (offset + 10))")
    case True
    with "1.IH" have "offset + 10 \<le> advance ks its sl (offset + 10)"
      by (simp add: pending_def)
    with True show ?thesis
      by (subst advance.simps) (simp add: Let_def pending_def)
  next
    case False
    then show ?thesis
      by (subst advance.simps) (auto simp: Let_def pending_def)
  qed
qed

lemma batches_beyond [simp]: "length sl \<le> offset \<Longrightarrow> batches sl offset = []"
  by (subst batches.simps) simp

lemma pendings_beyond [simp]: "length sl \<le> offset \<Longrightarrow> pendings ks its sl offset = []"
  by (simp add: pendings_def)

text \<open>
  The batch at which the loop stops is the first batch to send from \<open>offset\<close> on;
  the loop ends when there is none.
\<close>

lemma pendings_advance:
  "pendings ks its sl offset =
     (let offset' = advance ks its sl offset
      in if offset' < length sl
         then slice sl offset' (offset' + 10) # pendings ks its sl (offset' + 10)
         else [])"
proof (induction ks its sl offset rule: advance.induct)
  case (1 ks its sl offset)
  show ?case
  proof (cases "offset < length sl")
    case False
    then have "advance ks its sl offset = offset"
      by (subst advance.simps) simp
    with False show ?thesis
      by simp
  next
    case lt: True
    show ?thesis
    proof (cases "pending ks its (slice sl offset (offset + 10))")
      case True
      with lt have "advance ks its sl offset = offset"
        by (subst advance.simps) (simp add: Let_def pending_def)
      moreover from lt True have "pendings ks its sl offset
          = slice sl offset (offset + 10) # pendings ks its sl (offset + 10)"
        unfolding pendings_def by (subst batches.simps) simp
      ultimately show ?thesis
        using lt by simp
    next
      case False
      with lt have a: "advance ks its sl offset = advance ks its sl (offset + 10)"
        by (subst advance.simps) (simp add: Let_def pending_def)
      from lt False have "pendings ks its sl offset = pendings ks its sl (offset + 10)"
        unfolding pendings_def by (subst batches.simps) simp
      also from "1.IH" lt False have "\<dots> =
          (let offset' = advance ks its sl (offset + 10)
           in if offset' < length sl
              then slice sl offset' (offset' + 10) # pendings ks its sl (offset' + 10)
              else [])"
        by (simp add: pending_def)
      finally show ?thesis
        by (simp only: a)
    qed
  qed
qed

lemma set_slice_drop: "set (slice sl a b) \<subseteq> set (drop a sl)"
  by (auto simp: slice_def dest: in_set_takeD)

lemma set_drop_mono: "a \<le> b \<Longrightarrow> set (drop b sl) \<subseteq> set (drop a sl)"
  by (metis le_add_diff_inverse add.commute drop_drop set_drop_subset)

text \<open>The loop reads the \<open>onChain\<close> flags of the indices from its offset on, and nothing else.\<close>

lemma advance_cong:
  "(\<And>i. i \<in> set (drop offset sl) \<Longrightarrow> isOnChain ks its i = isOnChain ks its' i) \<Longrightarrow>
   advance ks its sl offset = advance ks its' sl offset"
proof (induction ks its sl offset rule: advance.induct)
  case (1 ks its sl offset)
  have f: "filter (isOnChain ks its) (slice sl offset (offset + 10))
         = filter (isOnChain ks its') (slice sl offset (offset + 10))"
    using "1.prems" set_slice_drop [of sl offset "offset + 10"]
    by (intro filter_cong) auto
  show ?case
  proof (cases "offset < length sl \<and> \<not> pending ks its (slice sl offset (offset + 10))")
    case True
    have "advance ks its sl (offset + 10) = advance ks its' sl (offset + 10)"
    proof (rule "1.IH")
      show "offset < length sl" using True by simp
      show "\<not> length (filter (isOnChain ks its) (slice sl offset (offset + 10)))
              \<noteq> length (slice sl offset (offset + 10))"
        using True by (simp add: pending_def)
      fix i assume "i \<in> set (drop (offset + 10) sl)"
      with set_drop_mono [of offset "offset + 10" sl] show "isOnChain ks its i = isOnChain ks its' i"
        by (intro "1.prems") auto
    qed simp_all
    with True f show ?thesis
      by (subst advance.simps, subst (2) advance.simps) (simp add: Let_def pending_def)
  next
    case False
    with f show ?thesis
      by (subst advance.simps, subst (2) advance.simps) (auto simp: Let_def pending_def)
  qed
qed

lemma pending_cong:
  "(\<And>i. i \<in> set ixs \<Longrightarrow> isOnChain ks its i = isOnChain ks its' i) \<Longrightarrow>
   pending ks its ixs = pending ks its' ixs"
proof -
  assume "\<And>i. i \<in> set ixs \<Longrightarrow> isOnChain ks its i = isOnChain ks its' i"
  then have "filter (isOnChain ks its) ixs = filter (isOnChain ks its') ixs"
    by (intro filter_cong) auto
  then show ?thesis
    by (simp add: pending_def)
qed

lemma pending_iff: "pending ks its ixs \<longleftrightarrow> (\<exists>i \<in> set ixs. \<not> isOnChain ks its i)"
proof -
  have "length (filter (isOnChain ks its) ixs) = length ixs \<longleftrightarrow> (\<forall>i \<in> set ixs. isOnChain ks its i)"
    by (metis filter_id_conv length_filter_less less_irrefl)
  then show ?thesis
    by (auto simp: pending_def)
qed

section \<open>One reply\<close>

lemma settle_fields:
  "content (settle v ks e ixs s) = (if rpc_ok e (clock s) then forEach v ks ixs (content s) else content s)"
  "resolved (settle v ks e ixs s) = (if rpc_ok e (clock s) then resolved s @ [ixs] else resolved s)"
  "rejected (settle v ks e ixs s) = (if rpc_ok e (clock s) then rejected s else rejected s @ [ixs])"
  "failed (settle v ks e ixs s)
     = (if rpc_ok e (clock s) \<and> save_ok e (clock s) then failed s else failed s @ [ixs])"
  "addConfigSuccessful (settle v ks e ixs s)
     = (addConfigSuccessful s \<and> rpc_ok e (clock s) \<and> save_ok e (clock s))"
  "cacheFile (settle v ks e ixs s)
     = (if rpc_ok e (clock s) \<and> save_ok e (clock s) then forEach v ks ixs (content s) else cacheFile s)"
  "sent (settle v ks e ixs s) = sent s"
  "tasks (settle v ks e ixs s) = tasks s"
  "clock (settle v ks e ixs s) = clock s"
  by (simp_all add: settle_def Let_def)

lemma touched_settle:
  "touched (settle v ks e ixs s) = (if rpc_ok e (clock s) then touched s \<union> set ixs else touched s)"
  by (auto simp: touched_def settle_fields)

lemma deliver_eq:
  assumes "tasks s ! k = (sl, off)"
  shows "deliver v acct ks e k s =
    (let s1 = settle v ks e (slice sl off (off + 10)) s;
         off' = advance ks (content s1) sl (off + 10)
     in s1\<lparr>sent := sent s @ (if off' < length sl
                              then [request acct ks (content s1) (slice sl off' (off' + 10))] else []),
           tasks := (tasks s)[k := (sl, off')],
           clock := Suc (clock s)\<rparr>)"
  using assms by (simp add: deliver_def resume_def Let_def settle_fields)

lemma deliver_fields:
  assumes "tasks s ! k = (sl, off)"
  shows "content (deliver v acct ks e k s) = content (settle v ks e (slice sl off (off + 10)) s)"
    and "resolved (deliver v acct ks e k s) = resolved (settle v ks e (slice sl off (off + 10)) s)"
    and "rejected (deliver v acct ks e k s) = rejected (settle v ks e (slice sl off (off + 10)) s)"
    and "failed (deliver v acct ks e k s) = failed (settle v ks e (slice sl off (off + 10)) s)"
    and "addConfigSuccessful (deliver v acct ks e k s)
           = addConfigSuccessful (settle v ks e (slice sl off (off + 10)) s)"
    and "cacheFile (deliver v acct ks e k s) = cacheFile (settle v ks e (slice sl off (off + 10)) s)"
    and "clock (deliver v acct ks e k s) = Suc (clock s)"
    and "touched (deliver v acct ks e k s) = touched (settle v ks e (slice sl off (off + 10)) s)"
  by (simp_all add: deliver_eq [OF assms] Let_def touched_def)

lemma awaitingD:
  "k \<in> set (awaiting s) \<Longrightarrow> k < length (tasks s) \<and> snd (tasks s ! k) < length (fst (tasks s ! k))"
  by (auto simp: awaiting_def)

lemma drive_invariant:
  assumes "P s"
    and "\<And>s k. P s \<Longrightarrow> k \<in> set (awaiting s) \<Longrightarrow> P (deliver v acct ks e k s)"
  shows "P (drive v acct ks e s)"
  using assms
proof (induction v acct ks e s rule: drive.induct)
  case (1 v acct ks e s)
  show ?case
  proof (cases "awaiting s = []")
    case True
    with "1.prems"(1) show ?thesis
      by (subst drive.simps) simp
  next
    case False
    let ?k = "awaiting s ! (pick e (clock s) mod length (awaiting s))"
    from False have "?k \<in> set (awaiting s)"
      by simp
    with "1.prems"(1) have "P (deliver v acct ks e ?k s)"
      by (rule "1.prems"(2))
    with "1.IH" [OF refl False] "1.prems"(2) have "P (drive v acct ks e (deliver v acct ks e ?k s))"
      by blast
    with False show ?thesis
      by (subst drive.simps) (simp add: Let_def)
  qed
qed

lemma drive_finished: "awaiting (drive v acct ks e s) = []"
proof (induction v acct ks e s rule: drive.induct)
  case (1 v acct ks e s)
  show ?case
  proof (cases "awaiting s = []")
    case True
    then show ?thesis
      by (subst drive.simps) simp
  next
    case False
    with "1.IH" show ?thesis
      by (subst drive.simps) (simp add: Let_def)
  qed
qed

section \<open>The invariant of a run\<close>

lemma concat_nth_disjoint:
  "distinct (concat xs) \<Longrightarrow> j < length xs \<Longrightarrow> k < length xs \<Longrightarrow> j \<noteq> k \<Longrightarrow>
   set (xs ! j) \<inter> set (xs ! k) = {}"
proof (induction xs arbitrary: j k)
  case Nil
  then show ?case by simp
next
  case (Cons x xs)
  have sub: "set (xs ! m) \<subseteq> set (concat xs)" if "m < length xs" for m
    using that by (auto intro: nth_mem)
  show ?case
  proof (cases j)
    case 0
    with Cons.prems obtain k' where "k = Suc k'" "k' < length xs"
      by (cases k) auto
    with 0 Cons.prems(1) sub [of k'] show ?thesis
      by auto
  next
    case (Suc j')
    show ?thesis
    proof (cases k)
      case 0
      with Suc Cons.prems sub [of j'] show ?thesis
        by auto
    next
      case (Suc k')
      with \<open>j = Suc j'\<close> Cons.prems Cons.IH [of j' k'] show ?thesis
        by simp
    qed
  qed
qed

lemma concat_nth_distinct: "distinct (concat xs) \<Longrightarrow> k < length xs \<Longrightarrow> distinct (xs ! k)"
  by (induction xs arbitrary: k) (auto simp: nth_Cons split: nat.splits)

lemma isOnChain_applied:
  assumes "distinct (map fst its)" "i < length its" "i \<notin> I"
  shows "isOnChain (keys_of its) (applied v its I) i = isOnChain (keys_of its) its i"
proof -
  have "distinct (map fst (applied v its I))"
    using assms(1) keys_applied [of v its I] by (simp add: keys_of_def)
  from isOnChain_nth [OF this, of i] assms show ?thesis
    by (simp add: isOnChain_nth nth_applied)
qed

lemma link_committed [simp]: "link (committed v it) = link it"
  by (cases v) simp_all

lemma name_committed [simp]: "name (committed v it) = name it"
  by (cases v) simp_all

lemma request_applied:
  assumes d: "distinct (map fst its)" and b: "\<forall>i \<in> set ixs. i < length its"
  shows "request acct (keys_of its) (applied v its I) ixs = request acct (keys_of its) its ixs"
proof -
  have d': "distinct (map fst (applied v its I))"
    using d keys_applied [of v its I] by (simp add: keys_of_def)
  have "getItem (applied v its I) (keys_of its ! i) = snd (applied v its I ! i)" if "i < length its" for i
    using getItem_nth [OF d', of i] that by simp
  then have "link (getItem (applied v its I) (keys_of its ! i)) = link (getItem its (keys_of its ! i))
      \<and> name (getItem (applied v its I) (keys_of its ! i)) = name (getItem its (keys_of its ! i))"
    if "i \<in> set ixs" for i
    using that b d by (simp add: nth_applied getItem_nth)
  then show ?thesis
    by (simp add: request_def)
qed

lemma indexes_request [simp]: "indexes (request acct ks its ixs) = ixs"
  by (simp add: request_def)

lemma mset_concat_map_update:
  "k < length xs \<Longrightarrow>
   mset (concat (map f (xs[k := y]))) + mset (f (xs ! k)) = mset (concat (map f xs)) + mset (f y)"
proof -
  assume k: "k < length xs"
  then have "xs[k := y] = take k xs @ y # drop (Suc k) xs"
    by (rule upd_conv_take_nth_drop)
  moreover have "concat (map f xs) = concat (map f (take k xs @ xs ! k # drop (Suc k) xs))"
    using k by (simp only: id_take_nth_drop [symmetric])
  ultimately show ?thesis
    by simp
qed

text \<open>
  The reply for task \<open>k\<close>, in a state that satisfies the invariant: the task goes on
  to the next batch to send of its slice, as the items at the start of the run
  determine it.
\<close>

lemma deliver_form:
  assumes inv: "invariant v acct e its chs s"
    and d: "distinct (map fst its)"
    and dc: "distinct (concat chs)"
    and rng: "\<forall>sl \<in> set chs. \<forall>i \<in> set sl. i < length its"
    and k: "k \<in> set (awaiting s)"
    and t: "tasks s ! k = (sl, off)"
  shows "deliver v acct (keys_of its) e k s =
           (settle v (keys_of its) e (slice sl off (off + 10)) s)
             \<lparr>sent := sent s @ map (request acct (keys_of its) its)
                                  (inflight (sl, advance (keys_of its) its sl (off + 10))),
              tasks := (tasks s)[k := (sl, advance (keys_of its) its sl (off + 10))],
              clock := Suc (clock s)\<rparr>"
    and "content (settle v (keys_of its) e (slice sl off (off + 10)) s)
           = applied v its (touched (settle v (keys_of its) e (slice sl off (off + 10)) s))"
    and "set (drop (off + 10) sl) \<inter> touched (settle v (keys_of its) e (slice sl off (off + 10)) s) = {}"
    and "set (slice sl off (off + 10)) \<subseteq> set sl"
    and "k < length chs \<and> sl = chs ! k \<and> off < length sl"
proof -
  let ?ks = "keys_of its"
  from awaitingD [OF k] t have kl: "k < length (tasks s)" and lt: "off < length sl"
    by simp_all
  from inv have tk: "map fst (tasks s) = chs"
    and cont: "content s = applied v its (touched s)"
    and untouched: "\<forall>j < length (tasks s). set (drop (snd (tasks s ! j)) (fst (tasks s ! j))) \<inter> touched s = {}"
    and req: "sent s = map (request acct ?ks its) (map indexes (sent s))"
    and snt: "mset (map indexes (sent s)) + mset (concat (map (later ?ks its) (tasks s)))
               = mset (concat (map (\<lambda>sl. pendings ?ks its sl 0) chs))"
    and fly: "mset (map indexes (sent s))
               = mset (resolved s) + mset (rejected s) + mset (concat (map inflight (tasks s)))"
    and rej: "set (rejected s) \<subseteq> set (failed s)"
    and ok: "addConfigSuccessful s \<longleftrightarrow> (\<forall>n < clock s. rpc_ok e n \<and> save_ok e n)"
    and okf: "addConfigSuccessful s \<longleftrightarrow> failed s = []"
    unfolding invariant_def by blast+
  have nthc: "j < length chs \<and> fst (tasks s ! j) = chs ! j" if "j < length (tasks s)" for j
    using that tk by (metis length_map nth_map)
  from nthc [OF kl] t have lc: "k < length chs" and sl: "sl = chs ! k"
    by simp_all
  then have slin: "sl \<in> set chs"
    by simp
  have dsl: "distinct sl"
    using concat_nth_distinct [OF dc lc] sl by simp
  define b where "b = slice sl off (off + 10)"
  define s1 where "s1 = settle v ?ks e b s"
  define off' where "off' = advance ?ks its sl (off + 10)"
  define nxt where "nxt = (if off' < length sl then [slice sl off' (off' + 10)] else [])"
  let ?s' = "deliver v acct ?ks e k s"

  have bsub: "set b \<subseteq> set (drop off sl)"
    unfolding b_def by (rule set_slice_drop)
  then have bsl: "set b \<subseteq> set sl"
    using set_drop_subset by fast
  with rng slin have brng: "\<forall>i \<in> set b. i < length its"
    by blast
  have t1: "touched s1 = (if rpc_ok e (clock s) then touched s \<union> set b else touched s)"
    unfolding s1_def by (rule touched_settle)
  have c1: "content s1 = applied v its (touched s1)"
    using forEach_applied [OF d brng, of v "touched s"]
    by (simp add: s1_def settle_fields touched_settle cont)
  have split: "drop off sl = take 10 (drop off sl) @ drop (off + 10) sl"
    by (metis add.commute append_take_drop_id drop_drop)
  have "distinct (drop off sl)"
    using dsl by simp
  then have "set (take 10 (drop off sl)) \<inter> set (drop (off + 10) sl) = {}"
    by (subst (asm) split) simp
  then have bfresh: "set b \<inter> set (drop (off + 10) sl) = {}"
    by (simp add: b_def slice_def)
  have "set (drop off sl) \<inter> touched s = {}"
    using untouched kl t by fastforce
  moreover have "set (drop (off + 10) sl) \<subseteq> set (drop off sl)"
    by (rule set_drop_mono) simp
  ultimately have fresh: "set (drop (off + 10) sl) \<inter> touched s1 = {}"
    using bfresh by (auto simp: t1)
  have adv: "advance ?ks (content s1) sl (off + 10) = off'"
    unfolding off'_def c1
  proof (rule advance_cong)
    fix i assume i: "i \<in> set (drop (off + 10) sl)"
    then have "i \<in> set sl"
      by (rule in_set_dropD)
    with rng slin have "i < length its"
      by blast
    moreover from i fresh have "i \<notin> touched s1"
      by blast
    ultimately show "isOnChain ?ks (applied v its (touched s1)) i = isOnChain ?ks its i"
      using d by (simp add: isOnChain_applied)
  qed
  then have adv': "advance ?ks (applied v its (touched s1)) sl (off + 10) = off'"
    by (simp only: c1)
  have ge: "off + 10 \<le> off'"
    unfolding off'_def by (rule advance_ge)
  have lat: "later ?ks its (sl, off) = nxt @ later ?ks its (sl, off')"
    using pendings_advance [of ?ks its sl "off + 10"]
    by (simp add: later_def Let_def nxt_def off'_def)
  have nrng: "\<forall>i \<in> set (slice sl off' (off' + 10)). i < length its"
    using set_slice_drop [of sl off' "off' + 10"] set_drop_subset [of off' sl] rng slin
    by blast
  have form: "?s' = s1\<lparr>sent := sent s @ map (request acct ?ks its) nxt,
                       tasks := (tasks s)[k := (sl, off')], clock := Suc (clock s)\<rparr>"
    using request_applied [OF d nrng, of acct v "touched s1"]
    by (simp add: deliver_eq [OF t] Let_def b_def [symmetric] s1_def [symmetric] c1 adv' nxt_def)
  from form show "deliver v acct ?ks e k s =
           (settle v ?ks e (slice sl off (off + 10)) s)
             \<lparr>sent := sent s @ map (request acct ?ks its) (inflight (sl, advance ?ks its sl (off + 10))),
              tasks := (tasks s)[k := (sl, advance ?ks its sl (off + 10))],
              clock := Suc (clock s)\<rparr>"
    by (simp add: s1_def b_def off'_def nxt_def inflight_def)
  from c1 show "content (settle v ?ks e (slice sl off (off + 10)) s)
      = applied v its (touched (settle v ?ks e (slice sl off (off + 10)) s))"
    by (simp only: s1_def b_def)
  from fresh show "set (drop (off + 10) sl) \<inter> touched (settle v ?ks e (slice sl off (off + 10)) s) = {}"
    by (simp only: s1_def b_def)
  from bsl show "set (slice sl off (off + 10)) \<subseteq> set sl"
    by (simp only: b_def)
  from lc sl lt show "k < length chs \<and> sl = chs ! k \<and> off < length sl"
    by simp
qed

lemma deliver_invariant:
  assumes inv: "invariant v acct e its chs s"
    and d: "distinct (map fst its)"
    and dc: "distinct (concat chs)"
    and rng: "\<forall>sl \<in> set chs. \<forall>i \<in> set sl. i < length its"
    and k: "k \<in> set (awaiting s)"
  shows "invariant v acct e its chs (deliver v acct (keys_of its) e k s)"
proof -
  let ?ks = "keys_of its"
  obtain sl off where t: "tasks s ! k = (sl, off)"
    by (cases "tasks s ! k")
  from awaitingD [OF k] t have kl: "k < length (tasks s)" and lt: "off < length sl"
    by simp_all
  from inv have tk: "map fst (tasks s) = chs"
    and untouched: "\<forall>j < length (tasks s). set (drop (snd (tasks s ! j)) (fst (tasks s ! j))) \<inter> touched s = {}"
    and req: "sent s = map (request acct ?ks its) (map indexes (sent s))"
    and snt: "mset (map indexes (sent s)) + mset (concat (map (later ?ks its) (tasks s)))
               = mset (concat (map (\<lambda>sl. pendings ?ks its sl 0) chs))"
    and fly: "mset (map indexes (sent s))
               = mset (resolved s) + mset (rejected s) + mset (concat (map inflight (tasks s)))"
    and rej: "set (rejected s) \<subseteq> set (failed s)"
    and ok: "addConfigSuccessful s \<longleftrightarrow> (\<forall>n < clock s. rpc_ok e n \<and> save_ok e n)"
    and okf: "addConfigSuccessful s \<longleftrightarrow> failed s = []"
    unfolding invariant_def by blast+
  have nthc: "j < length chs \<and> fst (tasks s ! j) = chs ! j" if "j < length (tasks s)" for j
    using that tk by (metis length_map nth_map)
  define b where "b = slice sl off (off + 10)"
  define s1 where "s1 = settle v ?ks e b s"
  define off' where "off' = advance ?ks its sl (off + 10)"
  define nxt where "nxt = inflight (sl, off')"
  let ?s' = "deliver v acct ?ks e k s"
  note df = deliver_form [OF inv d dc rng k t]
  have form: "?s' = s1\<lparr>sent := sent s @ map (request acct ?ks its) nxt,
                       tasks := (tasks s)[k := (sl, off')], clock := Suc (clock s)\<rparr>"
    and c1: "content s1 = applied v its (touched s1)"
    and fresh: "set (drop (off + 10) sl) \<inter> touched s1 = {}"
    and bsl: "set b \<subseteq> set sl"
    and lc: "k < length chs" and sl: "sl = chs ! k"
    using df by (simp_all only: s1_def b_def off'_def nxt_def)
  have t1: "touched s1 = (if rpc_ok e (clock s) then touched s \<union> set b else touched s)"
    unfolding s1_def by (rule touched_settle)
  have ge: "off + 10 \<le> off'"
    unfolding off'_def by (rule advance_ge)
  have lat: "later ?ks its (sl, off) = nxt @ later ?ks its (sl, off')"
    using pendings_advance [of ?ks its sl "off + 10"]
    by (simp add: later_def Let_def nxt_def off'_def inflight_def)
  have f_tasks: "tasks ?s' = (tasks s)[k := (sl, off')]"
    and f_sent: "sent ?s' = sent s @ map (request acct ?ks its) nxt"
    and f_clock: "clock ?s' = Suc (clock s)"
    and f_content: "content ?s' = content s1"
    and f_resolved: "resolved ?s' = resolved s1"
    and f_rejected: "rejected ?s' = rejected s1"
    and f_failed: "failed ?s' = failed s1"
    and f_ok: "addConfigSuccessful ?s' = addConfigSuccessful s1"
    by (simp_all add: form)
  have f_touched: "touched ?s' = touched s1"
    by (simp add: touched_def f_resolved)

  have i1: "map fst (tasks ?s') = chs"
  proof -
    have "map fst (tasks ?s') = (map fst (tasks s))[k := sl]"
      by (simp add: f_tasks map_update)
    also have "\<dots> = chs"
      using sl by (simp add: tk)
    finally show ?thesis .
  qed
  have i2: "content ?s' = applied v its (touched ?s')"
    by (simp add: f_content f_touched c1)
  have i3: "\<forall>j < length (tasks ?s'). set (drop (snd (tasks ?s' ! j)) (fst (tasks ?s' ! j))) \<inter> touched ?s' = {}"
  proof (intro allI impI)
    fix j assume j: "j < length (tasks ?s')"
    then have jl: "j < length (tasks s)"
      by (simp add: f_tasks)
    show "set (drop (snd (tasks ?s' ! j)) (fst (tasks ?s' ! j))) \<inter> touched ?s' = {}"
    proof (cases "j = k")
      case True
      have "set (drop off' sl) \<subseteq> set (drop (off + 10) sl)"
        using ge by (rule set_drop_mono)
      with fresh True kl show ?thesis
        by (auto simp: f_tasks f_touched)
    next
      case False
      from nthc [OF jl] have fj: "fst (tasks s ! j) = chs ! j" and jc: "j < length chs"
        by simp_all
      have "set (chs ! j) \<inter> set (chs ! k) = {}"
        using concat_nth_disjoint [OF dc jc lc False] .
      moreover have "set (drop (snd (tasks s ! j)) (fst (tasks s ! j))) \<subseteq> set (chs ! j)"
        using fj set_drop_subset by metis
      ultimately have "set (drop (snd (tasks s ! j)) (fst (tasks s ! j))) \<inter> set b = {}"
        using bsl sl by blast
      moreover have "set (drop (snd (tasks s ! j)) (fst (tasks s ! j))) \<inter> touched s = {}"
        using untouched jl by blast
      ultimately show ?thesis
        using False by (auto simp: f_tasks f_touched t1)
    qed
  qed
  have i4: "sent ?s' = map (request acct ?ks its) (map indexes (sent ?s'))"
  proof -
    have "map (request acct ?ks its) (map indexes (sent ?s'))
        = map (request acct ?ks its) (map indexes (sent s)) @ map (request acct ?ks its) nxt"
      by (simp add: f_sent comp_def)
    with req show ?thesis
      by (simp add: f_sent)
  qed
  have ix: "map indexes (sent ?s') = map indexes (sent s) @ nxt"
    by (simp add: f_sent comp_def)
  have i5: "mset (map indexes (sent ?s')) + mset (concat (map (later ?ks its) (tasks ?s')))
             = mset (concat (map (\<lambda>sl. pendings ?ks its sl 0) chs))"
  proof -
    define A where "A = mset (map indexes (sent s))"
    define L where "L = mset (concat (map (later ?ks its) (tasks s)))"
    define L' where "L' = mset (concat (map (later ?ks its) (tasks ?s')))"
    define N where "N = mset nxt"
    from mset_concat_map_update [OF kl, of "later ?ks its" "(sl, off')"]
    have "L' + N + mset (later ?ks its (sl, off')) = L + mset (later ?ks its (sl, off'))"
      by (simp add: f_tasks t lat L_def L'_def N_def)
    then have "L' + N = L"
      by simp
    then have "A + N + L' = A + L"
      by (simp add: ac_simps)
    moreover have "mset (map indexes (sent ?s')) = A + N"
      by (simp only: ix A_def N_def mset_append)
    ultimately show ?thesis
      using snt by (simp only: A_def L_def L'_def)
  qed
  have i6: "mset (map indexes (sent ?s'))
             = mset (resolved ?s') + mset (rejected ?s') + mset (concat (map inflight (tasks ?s')))"
  proof -
    define A where "A = mset (map indexes (sent s))"
    define F where "F = mset (concat (map inflight (tasks s)))"
    define F' where "F' = mset (concat (map inflight (tasks ?s')))"
    define N where "N = mset nxt"
    define R where "R = mset (resolved s) + mset (rejected s)"
    define R' where "R' = mset (resolved ?s') + mset (rejected ?s')"
    have "inflight (sl, off) = [b]" and "inflight (sl, off') = nxt"
      using lt by (simp_all add: inflight_def b_def nxt_def)
    with mset_concat_map_update [OF kl, of inflight "(sl, off')"]
    have 1: "F' + {#b#} = F + N"
      by (simp add: f_tasks t F_def F'_def N_def)
    have 2: "R' = R + {#b#}"
      by (simp add: R_def R'_def f_resolved f_rejected s1_def settle_fields)
    have 3: "A = R + F"
      using fly by (simp only: A_def R_def F_def)
    have "A + N = R + (F + N)"
      by (simp add: 3 ac_simps)
    also have "\<dots> = R + (F' + {#b#})"
      by (simp only: 1)
    also have "\<dots> = R' + F'"
      by (simp add: 2 ac_simps)
    finally have "A + N = R' + F'" .
    moreover have "mset (map indexes (sent ?s')) = A + N"
      by (simp only: ix A_def N_def mset_append)
    ultimately show ?thesis
      by (simp only: R'_def F'_def)
  qed
  have i7: "set (rejected ?s') \<subseteq> set (failed ?s')"
    using rej by (auto simp: f_rejected f_failed s1_def settle_fields)
  have i8: "addConfigSuccessful ?s' \<longleftrightarrow> (\<forall>n < clock ?s'. rpc_ok e n \<and> save_ok e n)"
    using ok by (auto simp: f_ok f_clock s1_def settle_fields less_Suc_eq)
  have i9: "addConfigSuccessful ?s' \<longleftrightarrow> failed ?s' = []"
    using okf by (auto simp: f_ok f_failed s1_def settle_fields)
  from i1 i2 i3 i4 i5 i6 i7 i8 i9 show ?thesis
    unfolding invariant_def by blast
qed

section \<open>The start of the tasks, and the whole run\<close>

lemma start_eq:
  "start acct ks s sl =
     s\<lparr>sent := sent s @ map (request acct ks (content s)) (inflight (sl, advance ks (content s) sl 0)),
       tasks := tasks s @ [(sl, advance ks (content s) sl 0)]\<rparr>"
  by (simp add: start_def resume_def Let_def inflight_def)

lemma launch_closed_form:
  "foldl (start acct ks) (initial its) cs =
     (initial its)\<lparr>sent := map (request acct ks its) (concat (map (\<lambda>sl. inflight (sl, advance ks its sl 0)) cs)),
                    tasks := map (\<lambda>sl. (sl, advance ks its sl 0)) cs\<rparr>"
proof (induction cs rule: rev_induct)
  case Nil
  show ?case
    by (simp add: initial_def)
next
  case (snoc sl cs)
  then show ?case
    by (simp add: start_eq initial_def)
qed

lemma mset_concat_map_append:
  "(\<And>x. x \<in> set xs \<Longrightarrow> f x @ g x = h x) \<Longrightarrow>
   mset (concat (map f xs)) + mset (concat (map g xs)) = mset (concat (map h xs))"
proof (induction xs)
  case Nil
  show ?case by simp
next
  case (Cons x xs)
  then have "mset (concat (map f xs)) + mset (concat (map g xs)) = mset (concat (map h xs))"
    and "mset (f x) + mset (g x) = mset (h x)"
    by (simp_all flip: mset_append)
  then show ?case
    by (simp add: ac_simps)
qed

lemma inflight_later: "inflight (sl, advance ks its sl 0) @ later ks its (sl, advance ks its sl 0) = pendings ks its sl 0"
  using pendings_advance [of ks its sl 0] by (simp add: inflight_def later_def Let_def)

lemma launch_invariant:
  "invariant v acct e its cs (foldl (start acct (keys_of its)) (initial its) cs)"
proof -
  let ?ks = "keys_of its"
  let ?s = "foldl (start acct ?ks) (initial its) cs"
  let ?t = "\<lambda>sl. (sl, advance ?ks its sl 0)"
  have f: "sent ?s = map (request acct ?ks its) (concat (map (\<lambda>sl. inflight (?t sl)) cs))"
    "tasks ?s = map ?t cs" "content ?s = its" "resolved ?s = []" "rejected ?s = []"
    "failed ?s = []" "clock ?s = 0" "addConfigSuccessful ?s"
    unfolding launch_closed_form by (simp_all add: initial_def)
  have ix: "map indexes (sent ?s) = concat (map (\<lambda>sl. inflight (?t sl)) cs)"
    by (simp add: f comp_def)
  have "mset (concat (map (\<lambda>sl. inflight (?t sl)) cs)) + mset (concat (map (\<lambda>sl. later ?ks its (?t sl)) cs))
      = mset (concat (map (\<lambda>sl. pendings ?ks its sl 0) cs))"
    by (rule mset_concat_map_append) (rule inflight_later)
  moreover have lt: "map (later ?ks its) (tasks ?s) = map (\<lambda>sl. later ?ks its (?t sl)) cs"
    by (simp add: f comp_def)
  ultimately have i5: "mset (map indexes (sent ?s)) + mset (concat (map (later ?ks its) (tasks ?s)))
      = mset (concat (map (\<lambda>sl. pendings ?ks its sl 0) cs))"
    by (simp only: ix lt)
  have "map inflight (tasks ?s) = map (\<lambda>sl. inflight (?t sl)) cs"
    by (simp add: f comp_def)
  then have i6: "mset (map indexes (sent ?s))
      = mset (resolved ?s) + mset (rejected ?s) + mset (concat (map inflight (tasks ?s)))"
    by (simp add: ix f(4,5))
  have i1: "map fst (tasks ?s) = cs"
    by (simp add: f comp_def)
  have i2: "content ?s = applied v its (touched ?s)"
    by (simp add: f touched_def)
  have i3: "\<forall>j < length (tasks ?s). set (drop (snd (tasks ?s ! j)) (fst (tasks ?s ! j))) \<inter> touched ?s = {}"
    by (simp add: touched_def f)
  have i4: "sent ?s = map (request acct ?ks its) (map indexes (sent ?s))"
    by (simp only: ix) (simp only: f)
  have i7: "set (rejected ?s) \<subseteq> set (failed ?s)"
    "addConfigSuccessful ?s \<longleftrightarrow> (\<forall>n < clock ?s. rpc_ok e n \<and> save_ok e n)"
    "addConfigSuccessful ?s \<longleftrightarrow> failed ?s = []"
    by (simp_all add: f)
  from i1 i2 i3 i4 i5 i6 i7 show ?thesis
    unfolding invariant_def by blast
qed

lemma chunks_static:
  "distinct (concat (chunks (array_keys n) 1000))"
  "\<forall>sl \<in> set (chunks (array_keys n) 1000). \<forall>i \<in> set sl. i < n"
proof -
  show "distinct (concat (chunks (array_keys n) 1000))"
    by (simp add: concat_chunks array_keys_def)
  show "\<forall>sl \<in> set (chunks (array_keys n) 1000). \<forall>i \<in> set sl. i < n"
  proof (intro ballI)
    fix sl i assume "sl \<in> set (chunks (array_keys n) 1000)" "i \<in> set sl"
    with chunks_member [of sl "array_keys n" 1000] have "i \<in> set (array_keys n)"
      by blast
    then show "i < n"
      by (simp add: array_keys_def)
  qed
qed

lemma promise_all_invariant:
  assumes d: "distinct (map fst its)"
  shows "invariant v acct e its (chunks (array_keys (length its)) 1000) (promise_all v e acct its)"
proof -
  let ?chs = "chunks (array_keys (length its)) 1000"
  have "invariant v acct e its ?chs (drive v acct (keys_of its) e (launch acct (keys_of its) its))"
  proof (rule drive_invariant)
    show "invariant v acct e its ?chs (launch acct (keys_of its) its)"
      using launch_invariant [of v acct e its ?chs] by (simp add: launch_def keys_of_def)
  next
    fix s k assume "invariant v acct e its ?chs s" "k \<in> set (awaiting s)"
    then show "invariant v acct e its ?chs (deliver v acct (keys_of its) e k s)"
      using d chunks_static [of "length its"] by (intro deliver_invariant)
  qed
  then show ?thesis
    by (simp add: promise_all_def Let_def)
qed

lemma promise_all_finished: "awaiting (promise_all v e acct its) = []"
  by (simp add: promise_all_def Let_def drive_finished)

lemma finished_tasks:
  assumes "awaiting s = []"
  shows "concat (map (later ks its) (tasks s)) = []" and "concat (map inflight (tasks s)) = []"
proof -
  have over: "length (fst t) \<le> snd t" if "t \<in> set (tasks s)" for t
  proof -
    from that obtain j where "j < length (tasks s)" "t = tasks s ! j"
      by (auto simp: in_set_conv_nth)
    with assms show ?thesis
      by (fastforce simp: awaiting_def filter_empty_conv not_less)
  qed
  have "later ks its t = []" if "t \<in> set (tasks s)" for t
    using over [OF that] by (simp add: later_def)
  then show "concat (map (later ks its) (tasks s)) = []"
    by simp
  have "inflight t = []" if "t \<in> set (tasks s)" for t
    using over [OF that] by (simp add: inflight_def)
  then show "concat (map inflight (tasks s)) = []"
    by simp
qed

lemma pendings_chunks:
  "concat (map (\<lambda>sl. pendings ks its sl 0) (chunks (array_keys n) 1000))
     = filter (pending ks its) (all_batches n)"
  by (simp add: all_batches_def partition_batches_def pendings_def filter_concat comp_def)

text \<open>
  The calls of a whole run: one for every batch that has an index not on chain at the
  start, each answered.
\<close>

lemma promise_all_sent:
  assumes d: "distinct (map fst its)"
  shows "mset (map indexes (sent (promise_all v e acct its)))
           = mset (filter (pending (keys_of its) its) (all_batches (length its)))"
    and "mset (map indexes (sent (promise_all v e acct its)))
           = mset (resolved (promise_all v e acct its)) + mset (rejected (promise_all v e acct its))"
    and "sent (promise_all v e acct its)
           = map (request acct (keys_of its) its) (map indexes (sent (promise_all v e acct its)))"
    and "content (promise_all v e acct its) = applied v its (touched (promise_all v e acct its))"
proof -
  let ?s = "promise_all v e acct its"
  note inv = promise_all_invariant [OF d, of v acct e, unfolded invariant_def]
  note fin = finished_tasks [OF promise_all_finished]
  from inv have "mset (map indexes (sent ?s)) + mset (concat (map (later (keys_of its) its) (tasks ?s)))
      = mset (concat (map (\<lambda>sl. pendings (keys_of its) its sl 0) (chunks (array_keys (length its)) 1000)))"
    by blast
  then show "mset (map indexes (sent ?s)) = mset (filter (pending (keys_of its) its) (all_batches (length its)))"
    by (simp only: fin pendings_chunks) simp
  from inv have "mset (map indexes (sent ?s))
      = mset (resolved ?s) + mset (rejected ?s) + mset (concat (map inflight (tasks ?s)))"
    by blast
  then show "mset (map indexes (sent ?s)) = mset (resolved ?s) + mset (rejected ?s)"
    by (simp only: fin) simp
  from inv show "sent ?s = map (request acct (keys_of its) its) (map indexes (sent ?s))"
    by blast
  from inv show "content ?s = applied v its (touched ?s)"
    by blast
qed

section \<open>The batches of a run\<close>

lemma concat_all_batches: "concat (all_batches n) = [0..<n]"
proof -
  have "concat (concat xss) = concat (map concat xss)" for xss :: "nat list list list"
    by (induction xss) simp_all
  with concat_partition_batches [of n] show ?thesis
    by (simp add: all_batches_def)
qed

lemma all_batches_member:
  assumes "b \<in> set (all_batches n)"
  shows "b \<noteq> []" and "\<forall>i \<in> set b. i < n"
proof -
  from assms obtain sl where "sl \<in> set (chunks (array_keys n) 1000)" "b \<in> set (batches sl 0)"
    by (auto simp: all_batches_def partition_batches_def)
  with batches_member [of b sl 0] show "b \<noteq> []"
    by simp
  from assms have "set b \<subseteq> set (concat (all_batches n))"
    by auto
  then show "\<forall>i \<in> set b. i < n"
    by (auto simp: concat_all_batches)
qed

text \<open>Every lookup \<open>items[keys[i]]\<close> of a run is for a key of the object.\<close>

lemma lookups_defined:
  assumes "b \<in> set (all_batches (length its))" "i \<in> set b"
  shows "i < length (keys_of its) \<and> map_of its (keys_of its ! i) \<noteq> None"
proof -
  from all_batches_member(2) [OF assms(1)] assms(2) have i: "i < length its"
    by blast
  then have "fst (its ! i) \<in> fst ` set its"
    by simp
  with i show ?thesis
    by (simp add: keys_of_def map_of_eq_None_iff)
qed

lemma all_batches_disjoint:
  assumes "b \<in> set (all_batches n)" "b' \<in> set (all_batches n)" "b \<noteq> b'"
  shows "set b \<inter> set b' = {}"
proof -
  have "distinct (concat (all_batches n))"
    by (simp add: concat_all_batches)
  with assms show ?thesis
    by (simp only: distinct_concat_iff) blast
qed


lemma clock_replies:
  "clock (promise_all v e acct its)
     = length (resolved (promise_all v e acct its)) + length (rejected (promise_all v e acct its))"
proof -
  let ?P = "\<lambda>s::state. clock s = length (resolved s) + length (rejected s)"
  have "?P (drive v acct (keys_of its) e (launch acct (keys_of its) its))"
  proof (rule drive_invariant)
    show "?P (launch acct (keys_of its) its)"
      unfolding launch_def launch_closed_form by (simp add: initial_def)
  next
    fix s k assume "?P s"
    then show "?P (deliver v acct (keys_of its) e k s)"
      by (cases "tasks s ! k") (simp add: deliver_fields settle_fields)
  qed
  then show ?thesis
    by (simp add: promise_all_def Let_def)
qed

text \<open>The number of replies of a run is the number of batches to send.\<close>

lemma clock_pending:
  assumes "distinct (map fst its)"
  shows "clock (promise_all v e acct its)
           = length (filter (pending (keys_of its) its) (all_batches (length its)))"
proof -
  let ?s = "promise_all v e acct its"
  let ?P = "filter (pending (keys_of its) its) (all_batches (length its))"
  have "mset (resolved ?s) + mset (rejected ?s) = mset ?P"
    using promise_all_sent(1,2) [OF assms, of v e acct] by simp
  then have "length (resolved ?s) + length (rejected ?s) = length ?P"
    by (metis size_mset size_union)
  then show ?thesis
    by (simp only: clock_replies)
qed

lemma promise_all_ok:
  assumes "distinct (map fst its)"
  shows "addConfigSuccessful (promise_all v e acct its)
           \<longleftrightarrow> (\<forall>n < clock (promise_all v e acct its). rpc_ok e n \<and> save_ok e n)"
    and "addConfigSuccessful (promise_all v e acct its) \<longleftrightarrow> failed (promise_all v e acct its) = []"
    and "set (rejected (promise_all v e acct its)) \<subseteq> set (failed (promise_all v e acct its))"
  using promise_all_invariant [OF assms, of v acct e] unfolding invariant_def by blast+

lemma replied_batches:
  assumes "distinct (map fst its)"
  shows "set (resolved (promise_all v e acct its)) \<union> set (rejected (promise_all v e acct its))
           = {b \<in> set (all_batches (length its)). pending (keys_of its) its b}"
proof -
  let ?s = "promise_all v e acct its"
  have "mset (resolved ?s) + mset (rejected ?s)
      = mset (filter (pending (keys_of its) its) (all_batches (length its)))"
    using promise_all_sent(1,2) [OF assms, of v e acct] by simp
  then have "set (resolved ?s) \<union> set (rejected ?s)
      = set (filter (pending (keys_of its) its) (all_batches (length its)))"
    by (metis set_mset_mset set_mset_union)
  then show ?thesis
    by simp
qed


section \<open>Properties of the sync run\<close>

lemma content_nth:
  assumes d: "distinct (map fst its)" and i: "i < length its"
  shows "getItem (content (promise_all v e acct its)) (keys_of its ! i)
           = (if i \<in> touched (promise_all v e acct its) then committed v (snd (its ! i)) else snd (its ! i))"
proof -
  let ?s = "promise_all v e acct its"
  have c: "content ?s = applied v its (touched ?s)"
    by (rule promise_all_sent(4) [OF d])
  have "distinct (map fst (content ?s))"
    using d keys_applied [of v its "touched ?s"] by (simp add: c keys_of_def)
  from getItem_nth [OF this, of i] i show ?thesis
    by (simp add: c nth_applied)
qed



text \<open>A run over items that are all on chain: no task awaits anything.\<close>

lemma nothing_pending:
  assumes "filter (pending (keys_of its) its) (all_batches (length its)) = []"
  shows "promise_all v e acct its
           = (initial its)\<lparr>tasks := map (\<lambda>sl. (sl, advance (keys_of its) its sl 0))
                                       (chunks (array_keys (length its)) 1000)\<rparr>"
proof -
  let ?ks = "keys_of its"
  let ?chs = "chunks (array_keys (length its)) 1000"
  let ?t = "\<lambda>sl. (sl, advance ?ks its sl 0)"
  have "concat (map (\<lambda>sl. pendings ?ks its sl 0) ?chs) = []"
    using assms by (simp only: pendings_chunks)
  then have "pendings ?ks its sl 0 = []" if "sl \<in> set ?chs" for sl
    using that by simp
  then have nf: "inflight (?t sl) = []" if "sl \<in> set ?chs" for sl
    using that inflight_later [of sl ?ks its] by simp
  then have "concat (map (\<lambda>sl. inflight (?t sl)) ?chs) = []"
    by simp
  then have l: "launch acct ?ks its = (initial its)\<lparr>tasks := map ?t ?chs\<rparr>"
    unfolding launch_def launch_closed_form by (simp add: keys_of_def initial_def)
  have "\<not> snd (?t sl) < length (fst (?t sl))" if "sl \<in> set ?chs" for sl
    using nf [OF that] by (simp add: inflight_def split: if_splits)
  then have "awaiting ((initial its)\<lparr>tasks := map ?t ?chs\<rparr>) = []"
    by (auto simp: awaiting_def filter_empty_conv)
  then have "drive v acct ?ks e ((initial its)\<lparr>tasks := map ?t ?chs\<rparr>) = (initial its)\<lparr>tasks := map ?t ?chs\<rparr>"
    by (subst drive.simps) simp
  with l show ?thesis
    by (simp add: promise_all_def Let_def)
qed

text \<open>After a run flagged as successful, every item is on chain.\<close>

lemma successful_all_onChain:
  assumes d: "distinct (map fst its)"
    and ok: "addConfigSuccessful (promise_all v e acct its)"
  shows "filter (pending (keys_of its) (content (promise_all v e acct its))) (all_batches (length its)) = []"
proof -
  let ?s = "promise_all v e acct its"
  let ?ks = "keys_of its"
  have c: "content ?s = applied v its (touched ?s)"
    by (rule promise_all_sent(4) [OF d])
  have d': "distinct (map fst (content ?s))" and k': "keys_of (content ?s) = ?ks"
    using d keys_applied [of v its "touched ?s"] by (simp_all add: c keys_of_def)
  from ok promise_all_ok(2,3) [OF d, of v e acct] have "rejected ?s = []"
    by simp
  with replied_batches [OF d, of v e acct]
  have res: "set (resolved ?s) = {b \<in> set (all_batches (length its)). pending ?ks its b}"
    by simp
  have on: "onChain (committed v it) = Some True" for it
    by (cases v) simp_all
  have "\<not> pending ?ks (content ?s) b" if b: "b \<in> set (all_batches (length its))" for b
  proof -
    have "isOnChain ?ks (content ?s) i" if i: "i \<in> set b" for i
    proof -
      from all_batches_member(2) [OF b] i have il: "i < length its"
        by blast
      have "onChain (snd (content ?s ! i)) = Some True"
      proof (cases "pending ?ks its b")
        case True
        with b res i have "i \<in> touched ?s"
          by (auto simp: touched_def)
        with il show ?thesis
          by (simp add: c nth_applied on)
      next
        case False
        with i have "isOnChain ?ks its i"
          by (auto simp: pending_iff)
        with d il have "onChain (snd (its ! i)) = Some True"
          by (simp add: isOnChain_nth)
        with il show ?thesis
          by (simp add: c nth_applied on)
      qed
      with isOnChain_nth [OF d', of i] il show ?thesis
        by (simp add: k' c)
    qed
    then show ?thesis
      by (simp add: pending_iff)
  qed
  then show ?thesis
    by (simp add: filter_empty_conv)
qed

text \<open>
  C2. A batch whose indices are all on chain at the start of the run gets no remote
  call: no call of the run contains any of its indices. And after a run that
  reported success, a second run on the cache file it left makes no remote call,
  leaves the file as it is and reports success again (its only action is the final
  save, whose failure is the only way it can fail).
\<close>

theorem sync_idempotent:
  assumes "distinct (map fst its)"
  shows "(\<forall>b \<in> set (all_batches (length its)).
            (\<forall>i \<in> set b. isOnChain (keys_of its) its i) \<longrightarrow>
            (\<forall>c \<in> set (sent (promise_all v e acct its)). set (indexes c) \<inter> set b = {}))
         \<and> (\<forall>c f calls. items c = Some its \<and> addConfigLines v e (Some c) = (Inr True, f, calls) \<longrightarrow>
               addConfigLines v e' f = (if save_ok e' 0 then Inr True else Inl SaveError, f, []))"
proof (intro conjI ballI allI impI)
  let ?s = "promise_all v e acct its"
  fix b c assume b: "b \<in> set (all_batches (length its))"
    and on: "\<forall>i \<in> set b. isOnChain (keys_of its) its i"
    and c: "c \<in> set (sent ?s)"
  from c have "indexes c \<in> set (map indexes (sent ?s))"
    by simp
  moreover have "set (map indexes (sent ?s))
      = set (filter (pending (keys_of its) its) (all_batches (length its)))"
    using promise_all_sent(1) [OF assms, of v e acct] by (rule mset_eq_setD)
  ultimately have cb: "indexes c \<in> set (all_batches (length its))" and p: "pending (keys_of its) its (indexes c)"
    by simp_all
  from on have "\<not> pending (keys_of its) its b"
    by (simp add: pending_iff)
  with p have "indexes c \<noteq> b"
    by blast
  from all_batches_disjoint [OF cb b this] show "set (indexes c) \<inter> set b = {}" .
next
  fix c f calls
  assume a: "items c = Some its \<and> addConfigLines v e (Some c) = (Inr True, f, calls)"
  then have its: "items c = Some its" and run: "addConfigLines v e (Some c) = (Inr True, f, calls)"
    by simp_all
  from run obtain p where p: "program c = Some p"
    by (cases "program c") (simp_all add: addConfigLines_def)
  from run p have acc: "\<not> (account_of v p = None \<or> account_of v p = Some [])"
    by (auto simp: addConfigLines_def split: if_splits)
  let ?s = "promise_all v e (the (account_of v p)) its"
  from run p acc its have ok: "addConfigSuccessful ?s" and f: "f = Some (c\<lparr>items := Some (content ?s)\<rparr>)"
    by (auto simp: addConfigLines_def Let_def split: if_splits)
  have c: "content ?s = applied v its (touched ?s)"
    by (rule promise_all_sent(4) [OF assms])
  have k: "keys_of (content ?s) = keys_of its" and l: "length (content ?s) = length its"
    by (simp_all add: c)
  from successful_all_onChain [OF assms ok]
  have "filter (pending (keys_of (content ?s)) (content ?s)) (all_batches (length (content ?s))) = []"
    by (simp only: k l)
  from nothing_pending [OF this, of v e' "the (account_of v p)"]
  have s2: "sent (promise_all v e' (the (account_of v p)) (content ?s)) = []"
    "clock (promise_all v e' (the (account_of v p)) (content ?s)) = 0"
    "addConfigSuccessful (promise_all v e' (the (account_of v p)) (content ?s))"
    "content (promise_all v e' (the (account_of v p)) (content ?s)) = content ?s"
    "cacheFile (promise_all v e' (the (account_of v p)) (content ?s)) = content ?s"
    by (simp_all add: initial_def)
  from p acc show "addConfigLines v e' f = (if save_ok e' 0 then Inr True else Inl SaveError, f, [])"
    by (simp add: f addConfigLines_def Let_def s2)
qed

theorem sync_idempotent_witness:
  "distinct (map fst (example_items 12 (\<lambda>i. (if i < 10 then Some True else None, None))))
   \<and> [0..<10] \<in> set (all_batches 12)
   \<and> list_all (isOnChain (keys_of (example_items 12 (\<lambda>i. (if i < 10 then Some True else None, None))))
                 (example_items 12 (\<lambda>i. (if i < 10 then Some True else None, None)))) [0..<10]
   \<and> map indexes (sent (promise_all CandyMachineV2 all_fine ''candy''
                          (example_items 12 (\<lambda>i. (if i < 10 then Some True else None, None))))) = [[10, 11]]
   \<and> fst (addConfigLines CandyMachineV2 all_fine
             (Some (example_cache (example_items 12 (\<lambda>i. (if i < 10 then Some True else None, None)))))) = Inr True
   \<and> addConfigLines CandyMachineV2 all_fine
         (fst (snd (addConfigLines CandyMachineV2 all_fine
             (Some (example_cache (example_items 12 (\<lambda>i. (if i < 10 then Some True else None, None))))))))
       = (Inr True,
          fst (snd (addConfigLines CandyMachineV2 all_fine
             (Some (example_cache (example_items 12 (\<lambda>i. (if i < 10 then Some True else None, None))))))),
          [])"
proof -
  define its where "its = example_items 12 (\<lambda>i. (if i < 10 then Some True else None, None))"
  define r where "r = addConfigLines CandyMachineV2 all_fine (Some (example_cache its))"
  have d: "distinct (map fst its)"
    unfolding its_def by code_simp
  have b: "[0..<10] \<in> set (all_batches 12)"
    by code_simp
  have on: "list_all (isOnChain (keys_of its) its) [0..<10]"
    unfolding its_def by code_simp
  have snt: "map indexes (sent (promise_all CandyMachineV2 all_fine ''candy'' its)) = [[10, 11]]"
    unfolding its_def by code_simp
  have r: "fst r = Inr True"
    unfolding r_def its_def by code_simp
  have f: "save_ok all_fine 0"
    by (simp add: all_fine_def)
  have i: "items (example_cache its) = Some its"
    by (simp add: example_cache_def)
  from r have run: "addConfigLines CandyMachineV2 all_fine (Some (example_cache its))
      = (Inr True, fst (snd r), snd (snd r))"
    unfolding r_def by (metis prod.collapse)
  from sync_idempotent [OF d, of CandyMachineV2 all_fine "''candy''" all_fine]
  have "\<forall>c f calls. items c = Some its
          \<and> addConfigLines CandyMachineV2 all_fine (Some c) = (Inr True, f, calls) \<longrightarrow>
          addConfigLines CandyMachineV2 all_fine f
            = (if save_ok all_fine 0 then Inr True else Inl SaveError, f, [])"
    by (rule conjunct2)
  from this [rule_format, of "example_cache its" "fst (snd r)" "snd (snd r)", OF conjI [OF i run]]
  have "addConfigLines CandyMachineV2 all_fine (fst (snd r)) = (Inr True, fst (snd r), [])"
    by (simp only: f if_True)
  with d b on snt r show ?thesis
    unfolding r_def its_def by (intro conjI)
qed

text \<open>
  C3 as stated fails. With ten records of which \<open>0, 1, 2\<close> are on chain and \<open>3, ..., 9\<close>
  are not, the ten indices are one inner batch; the batch has an index that is not
  on chain, so it is sent whole, and the call contains the indices \<open>0, 1, 2\<close>.
\<close>

theorem resumed_call_contains_committed_indices:
  "map (isOnChain (keys_of (example_items 10 (\<lambda>i. (if i < 3 then Some True else None, None))))
                  (example_items 10 (\<lambda>i. (if i < 3 then Some True else None, None)))) [0..<10]
     = [True, True, True, False, False, False, False, False, False, False]
   \<and> map indexes (sent (promise_all CandyMachineV2 all_fine ''candy''
                          (example_items 10 (\<lambda>i. (if i < 3 then Some True else None, None)))))
     = [[0, 1, 2, 3, 4, 5, 6, 7, 8, 9]]
   \<and> map configs (sent (promise_all CandyMachineV2 all_fine ''candy''
                          (example_items 10 (\<lambda>i. (if i < 3 then Some True else None, None)))))
     = [[(''u0'', ''n0''), (''u1'', ''n1''), (''u2'', ''n2''), (''u3'', ''n3''), (''u4'', ''n4''),
         (''u5'', ''n5''), (''u6'', ''n6''), (''u7'', ''n7''), (''u8'', ''n8''), (''u9'', ''n9'')]]"
  by code_simp

text \<open>
  C3, amended. For a cache of ten records where the indices \<open>0, 1, 2\<close> are on chain and
  \<open>3, ..., 9\<close> are not, a run makes exactly one remote call: the call for the whole
  inner batch \<open>0, ..., 9\<close>, with the ten \<open>(uri, name)\<close> pairs in order, those of the
  indices \<open>0, 1, 2\<close> included. (A call is made for a batch, not for the indices that
  are not on chain; C2 says which batches get none.)
\<close>

theorem resumed_run_resends_whole_batch:
  assumes "distinct (map fst its)" and "length its = 10"
    and "\<forall>i \<in> {0..<3}. isOnChain (keys_of its) its i"
    and "\<forall>i \<in> {3..<10}. \<not> isOnChain (keys_of its) its i"
  shows "sent (promise_all v e acct its)
           = [\<lparr>indexes = [0..<10], ind = keys_of its ! 0,
               configs = map (\<lambda>i. (link (snd (its ! i)), name (snd (its ! i)))) [0..<10],
               account = acct\<rparr>]"
proof -
  let ?s = "promise_all v e acct its"
  let ?ks = "keys_of its"
  have ab: "all_batches 10 = [[0..<10]]"
    by code_simp
  have "(3::nat) \<in> set [0..<10]"
    by simp
  with assms(4) have "pending ?ks its [0..<10]"
    unfolding pending_iff by (intro bexI [of _ 3]) simp_all
  then have "filter (pending ?ks its) (all_batches (length its)) = [[0..<10]]"
    by (simp add: assms(2) ab)
  with promise_all_sent(1) [OF assms(1), of v e acct] have "mset (map indexes (sent ?s)) = {#[0..<10]#}"
    by (simp del: mset_map)
  then have "map indexes (sent ?s) = [[0..<10]]"
    by (simp only: mset_single_iff)
  with promise_all_sent(3) [OF assms(1), of v e acct] have "sent ?s = [request acct ?ks its [0..<10]]"
    by simp
  moreover have "getItem its (?ks ! i) = snd (its ! i)" if "i \<in> set [0..<10]" for i
    using that assms(1,2) by (simp add: getItem_nth)
  then have "map (\<lambda>i. (link (getItem its (?ks ! i)), name (getItem its (?ks ! i)))) [0..<10]
      = map (\<lambda>i. (link (snd (its ! i)), name (snd (its ! i)))) [0..<10]"
    by (intro map_cong) simp_all
  ultimately show ?thesis
    by (simp add: request_def del: upt_Suc)
qed

theorem resumed_run_resends_whole_batch_witness:
  "distinct (map fst (example_items 10 (\<lambda>i. (if i < 3 then Some True else None, None))))
   \<and> length (example_items 10 (\<lambda>i. (if i < 3 then Some True else None, None))) = 10
   \<and> list_all (isOnChain (keys_of (example_items 10 (\<lambda>i. (if i < 3 then Some True else None, None))))
                 (example_items 10 (\<lambda>i. (if i < 3 then Some True else None, None)))) [0..<3]
   \<and> list_all (\<lambda>i. \<not> isOnChain (keys_of (example_items 10 (\<lambda>i. (if i < 3 then Some True else None, None))))
                 (example_items 10 (\<lambda>i. (if i < 3 then Some True else None, None))) i) [3..<10]
   \<and> sent (promise_all ConfigV1 (reject_at [0]) ''config''
              (example_items 10 (\<lambda>i. (if i < 3 then Some True else None, None))))
       = [\<lparr>indexes = [0..<10],
           ind = keys_of (example_items 10 (\<lambda>i. (if i < 3 then Some True else None, None))) ! 0,
           configs = map (\<lambda>i. (link (snd (example_items 10 (\<lambda>i. (if i < 3 then Some True else None, None)) ! i)),
                                name (snd (example_items 10 (\<lambda>i. (if i < 3 then Some True else None, None)) ! i))))
                        [0..<10],
           account = ''config''\<rparr>]"
proof -
  define its where "its = example_items 10 (\<lambda>i. (if i < 3 then Some True else None, None))"
  have d: "distinct (map fst its)"
    unfolding its_def by code_simp
  have l: "length its = 10"
    by (simp add: its_def example_items_def)
  have on: "list_all (isOnChain (keys_of its) its) [0..<3]"
    unfolding its_def by code_simp
  have off: "list_all (\<lambda>i. \<not> isOnChain (keys_of its) its i) [3..<10]"
    unfolding its_def by code_simp
  from on have on': "\<forall>i \<in> {0..<3}. isOnChain (keys_of its) its i"
    by (simp only: list_all_iff set_upt)
  from off have off': "\<forall>i \<in> {3..<10}. \<not> isOnChain (keys_of its) its i"
    by (simp only: list_all_iff set_upt)
  from resumed_run_resends_whole_batch [OF d l on' off', of ConfigV1 "reject_at [0]" "''config''"] d l on off
  show ?thesis
    unfolding its_def by (intro conjI)
qed

lemma addConfigLines_configured:
  assumes "items c = Some its" "program c = Some p" "account_of v p = Some acct" "acct \<noteq> []"
  shows "addConfigLines v e (Some c) =
           (if save_ok e (clock (promise_all v e acct its))
            then (Inr (addConfigSuccessful (promise_all v e acct its)),
                  Some (c\<lparr>items := Some (content (promise_all v e acct its))\<rparr>),
                  sent (promise_all v e acct its))
            else (Inl SaveError,
                  Some (c\<lparr>items := Some (cacheFile (promise_all v e acct its))\<rparr>),
                  sent (promise_all v e acct its)))"
  using assms by (simp add: addConfigLines_def Let_def)

text \<open>
  C4 as stated fails. Two runs over the same eleven records (two inner batches), one
  with one rejected call and one resolved call, the other with two rejected calls:
  both report the same value, \<open>Successful = false\<close>. The report is one boolean and
  does not tell the counts.
\<close>

theorem report_does_not_tell_counts:
  "fst (addConfigLines CandyMachineV2 (reject_at [0]) (Some (example_cache (example_items 11 (\<lambda>i. (None, None))))))
     = Inr False
   \<and> fst (addConfigLines CandyMachineV2 (reject_at [0, 1]) (Some (example_cache (example_items 11 (\<lambda>i. (None, None))))))
     = Inr False
   \<and> (resolved (promise_all CandyMachineV2 (reject_at [0]) ''candy'' (example_items 11 (\<lambda>i. (None, None)))),
       rejected (promise_all CandyMachineV2 (reject_at [0]) ''candy'' (example_items 11 (\<lambda>i. (None, None)))))
     = ([[10]], [[0, 1, 2, 3, 4, 5, 6, 7, 8, 9]])
   \<and> (resolved (promise_all CandyMachineV2 (reject_at [0, 1]) ''candy'' (example_items 11 (\<lambda>i. (None, None)))),
       rejected (promise_all CandyMachineV2 (reject_at [0, 1]) ''candy'' (example_items 11 (\<lambda>i. (None, None)))))
     = ([], [[0, 1, 2, 3, 4, 5, 6, 7, 8, 9], [10]])"
  by code_simp

text \<open>
  C4, amended. The outcome of a run is a single boolean, the flag \<open>addConfigSuccessful\<close>
  printed as \<open>Done. Successful = ...\<close>: with \<open>n\<close> the number of batches that have an
  index not on chain at the start (the number of calls), it is true exactly when each
  of the \<open>n\<close> calls resolved and each save after a call succeeded; no count of
  succeeded or failed batches is returned. (When the final save throws, nothing is
  printed and the error reaches the caller.)
\<close>

theorem report_is_one_boolean:
  assumes "distinct (map fst its)"
    and "items c = Some its" "program c = Some p" "account_of v p = Some acct" "acct \<noteq> []"
  shows "fst (addConfigLines v e (Some c)) =
           (if save_ok e (length (filter (pending (keys_of its) its) (all_batches (length its))))
            then Inr (\<forall>k < length (filter (pending (keys_of its) its) (all_batches (length its))).
                        rpc_ok e k \<and> save_ok e k)
            else Inl SaveError)"
  using promise_all_ok(1) [OF assms(1), of v e acct]
  by (simp add: addConfigLines_configured [OF assms(2-5)] clock_pending [OF assms(1)])

theorem report_is_one_boolean_witness:
  "distinct (map fst (example_items 11 (\<lambda>i. (None, None))))
   \<and> items (example_cache (example_items 11 (\<lambda>i. (None, None)))) = Some (example_items 11 (\<lambda>i. (None, None)))
   \<and> program (example_cache (example_items 11 (\<lambda>i. (None, None))))
       = Some \<lparr>uuid = ''uuid01'', candyMachine = Some ''candy'', config = Some ''config''\<rparr>
   \<and> account_of CandyMachineV2 \<lparr>uuid = ''uuid01'', candyMachine = Some ''candy'', config = Some ''config''\<rparr>
       = Some ''candy''
   \<and> ''candy'' \<noteq> []
   \<and> length (filter (pending (keys_of (example_items 11 (\<lambda>i. (None, None)))) (example_items 11 (\<lambda>i. (None, None))))
               (all_batches (length (example_items 11 (\<lambda>i. (None, None)))))) = 2
   \<and> fst (addConfigLines CandyMachineV2 (reject_at [1]) (Some (example_cache (example_items 11 (\<lambda>i. (None, None))))))
       = Inr False"
proof -
  define its where "its = example_items 11 (\<lambda>i. (None :: bool option, None :: bool option))"
  define p where "p = \<lparr>uuid = ''uuid01'', candyMachine = Some ''candy'', config = Some ''config''\<rparr>"
  have d: "distinct (map fst its)"
    unfolding its_def by code_simp
  have i: "items (example_cache its) = Some its" and pr: "program (example_cache its) = Some p"
    by (simp_all add: example_cache_def p_def)
  have a: "account_of CandyMachineV2 p = Some ''candy''" and ne: "''candy'' \<noteq> []"
    by (simp_all add: p_def)
  have n: "length (filter (pending (keys_of its) its) (all_batches (length its))) = 2"
    unfolding its_def by code_simp
  have "\<not> (\<forall>k < 2. rpc_ok (reject_at [1]) k \<and> save_ok (reject_at [1]) k)"
    by (auto simp: reject_at_def)
  moreover have "save_ok (reject_at [1]) 2"
    by (simp add: reject_at_def)
  ultimately have "fst (addConfigLines CandyMachineV2 (reject_at [1]) (Some (example_cache its))) = Inr False"
    using report_is_one_boolean [OF d i pr a ne, of "reject_at [1]"] by (simp only: n if_True)
  with d i pr a ne n show ?thesis
    unfolding its_def p_def by (intro conjI)
qed

text \<open>
  C7 as stated fails. Eleven records, every call resolves, the \<open>saveCache\<close> after
  the first call throws: the throw is caught by the \<open>catch\<close> of the batch, the batch is
  logged as failed, the second call is still made, and the run ends with the report
  \<open>Successful = false\<close>; no error reaches the caller.
\<close>

theorem failed_save_is_a_batch_failure:
  "addConfigLines CandyMachineV2 (save_fails_at [0]) (Some (example_cache (example_items 11 (\<lambda>i. (None, None)))))
     = (Inr False,
        Some (example_cache (example_items 11 (\<lambda>i. (Some True, Some False)))),
        map (request ''candy'' (keys_of (example_items 11 (\<lambda>i. (None, None)))) (example_items 11 (\<lambda>i. (None, None))))
          [[0, 1, 2, 3, 4, 5, 6, 7, 8, 9], [10]])
   \<and> failed (promise_all CandyMachineV2 (save_fails_at [0]) ''candy'' (example_items 11 (\<lambda>i. (None, None))))
     = [[0, 1, 2, 3, 4, 5, 6, 7, 8, 9]]"
  by code_simp

text \<open>
  C7, amended. A failure of the final cache save (the \<open>saveCache\<close> of the \<open>finally\<close>
  block, after every chunk task has ended) reaches the caller and nothing is
  reported. A failure of the cache save that follows a resolved call is caught at
  the batch like a rejected call: the items stay marked in memory, the file is not
  written, the batch is logged as failed, the flag becomes false, and the run goes
  on, so that the calls of a run are the same whatever the saves do and, when the
  final save succeeds, a report is printed (false as soon as one save has failed).
\<close>

theorem save_failure_fatal_only_at_the_end:
  assumes "distinct (map fst its)"
    and "items c = Some its" "program c = Some p" "account_of v p = Some acct" "acct \<noteq> []"
  shows "(\<not> save_ok e (length (filter (pending (keys_of its) its) (all_batches (length its)))) \<longrightarrow>
            fst (addConfigLines v e (Some c)) = Inl SaveError)
         \<and> (save_ok e (length (filter (pending (keys_of its) its) (all_batches (length its)))) \<longrightarrow>
              fst (addConfigLines v e (Some c))
                = Inr (\<forall>k < length (filter (pending (keys_of its) its) (all_batches (length its))).
                         rpc_ok e k \<and> save_ok e k))
         \<and> mset (map indexes (snd (snd (addConfigLines v e (Some c)))))
             = mset (filter (pending (keys_of its) its) (all_batches (length its)))
         \<and> (rpc_ok e (clock s) \<and> \<not> save_ok e (clock s) \<longrightarrow>
              settle v ks e ixs s
                = s\<lparr>content := forEach v ks ixs (content s), resolved := resolved s @ [ixs],
                     addConfigSuccessful := False, failed := failed s @ [ixs]\<rparr>)"
proof (intro conjI impI)
  let ?n = "length (filter (pending (keys_of its) its) (all_batches (length its)))"
  note run = addConfigLines_configured [OF assms(2-5), of e]
  note n = clock_pending [OF assms(1), of v e acct]
  show "fst (addConfigLines v e (Some c)) = Inl SaveError" if "\<not> save_ok e ?n"
    using that by (simp add: run n)
  show "fst (addConfigLines v e (Some c)) = Inr (\<forall>k < ?n. rpc_ok e k \<and> save_ok e k)" if "save_ok e ?n"
    using that promise_all_ok(1) [OF assms(1), of v e acct] by (simp add: run n)
  show "mset (map indexes (snd (snd (addConfigLines v e (Some c)))))
      = mset (filter (pending (keys_of its) its) (all_batches (length its)))"
    using promise_all_sent(1) [OF assms(1), of v e acct] by (simp add: run)
  show "settle v ks e ixs s
      = s\<lparr>content := forEach v ks ixs (content s), resolved := resolved s @ [ixs],
           addConfigSuccessful := False, failed := failed s @ [ixs]\<rparr>"
    if "rpc_ok e (clock s) \<and> \<not> save_ok e (clock s)"
    using that by (simp add: settle_def Let_def)
qed

theorem save_failure_fatal_only_at_the_end_witness:
  "distinct (map fst (example_items 11 (\<lambda>i. (None, None))))
   \<and> items (example_cache (example_items 11 (\<lambda>i. (None, None)))) = Some (example_items 11 (\<lambda>i. (None, None)))
   \<and> program (example_cache (example_items 11 (\<lambda>i. (None, None))))
       = Some \<lparr>uuid = ''uuid01'', candyMachine = Some ''candy'', config = Some ''config''\<rparr>
   \<and> account_of ConfigV1 \<lparr>uuid = ''uuid01'', candyMachine = Some ''candy'', config = Some ''config''\<rparr>
       = Some ''config''
   \<and> ''config'' \<noteq> []
   \<and> length (filter (pending (keys_of (example_items 11 (\<lambda>i. (None, None)))) (example_items 11 (\<lambda>i. (None, None))))
               (all_batches (length (example_items 11 (\<lambda>i. (None, None)))))) = 2
   \<and> \<not> save_ok (save_fails_at [2]) 2
   \<and> fst (addConfigLines ConfigV1 (save_fails_at [2]) (Some (example_cache (example_items 11 (\<lambda>i. (None, None))))))
       = Inl SaveError
   \<and> save_ok (save_fails_at [1]) 2
   \<and> fst (addConfigLines ConfigV1 (save_fails_at [1]) (Some (example_cache (example_items 11 (\<lambda>i. (None, None))))))
       = Inr False
   \<and> rpc_ok (save_fails_at [0]) (clock (initial [])) \<and> \<not> save_ok (save_fails_at [0]) (clock (initial []))
   \<and> settle ConfigV1 [] (save_fails_at [0]) [] (initial [])
       = (initial [])\<lparr>content := forEach ConfigV1 [] [] (content (initial [])),
                       resolved := resolved (initial []) @ [[]],
                       addConfigSuccessful := False, failed := failed (initial []) @ [[]]\<rparr>"
proof -
  define its where "its = example_items 11 (\<lambda>i. (None :: bool option, None :: bool option))"
  define p where "p = \<lparr>uuid = ''uuid01'', candyMachine = Some ''candy'', config = Some ''config''\<rparr>"
  have d: "distinct (map fst its)"
    unfolding its_def by code_simp
  have i: "items (example_cache its) = Some its" and pr: "program (example_cache its) = Some p"
    by (simp_all add: example_cache_def p_def)
  have a: "account_of ConfigV1 p = Some ''config''" and ne: "''config'' \<noteq> []"
    by (simp_all add: p_def)
  have n: "length (filter (pending (keys_of its) its) (all_batches (length its))) = 2"
    unfolding its_def by code_simp
  have s2: "\<not> save_ok (save_fails_at [2]) 2" and s1: "save_ok (save_fails_at [1]) 2"
    and s0: "rpc_ok (save_fails_at [0]) (clock (initial [])) \<and> \<not> save_ok (save_fails_at [0]) (clock (initial []))"
    by (simp_all add: save_fails_at_def initial_def)
  have f: "\<not> (\<forall>k < 2. rpc_ok (save_fails_at [1]) k \<and> save_ok (save_fails_at [1]) k)"
    by (auto simp: save_fails_at_def)
  from save_failure_fatal_only_at_the_end [OF d i pr a ne, of "save_fails_at [2]" "initial []" "[]" "[]"] s2
  have r2: "fst (addConfigLines ConfigV1 (save_fails_at [2]) (Some (example_cache its))) = Inl SaveError"
    unfolding n by blast
  from save_failure_fatal_only_at_the_end [OF d i pr a ne, of "save_fails_at [1]" "initial []" "[]" "[]"] s1 f
  have r1: "fst (addConfigLines ConfigV1 (save_fails_at [1]) (Some (example_cache its))) = Inr False"
    unfolding n by simp
  from save_failure_fatal_only_at_the_end [OF d i pr a ne, of "save_fails_at [0]" "initial []" "[]" "[]"] s0
  have r0: "settle ConfigV1 [] (save_fails_at [0]) [] (initial [])
       = (initial [])\<lparr>content := forEach ConfigV1 [] [] (content (initial [])),
                       resolved := resolved (initial []) @ [[]],
                       addConfigSuccessful := False, failed := failed (initial []) @ [[]]\<rparr>"
    by blast
  from d i pr a ne n s2 r2 s1 r1 s0 r0 show ?thesis
    unfolding its_def p_def by (intro conjI) blast+
qed

section \<open>The flags of the items\<close>

lemma getItem_assign:
  "getItem (assign k f its) k' = (if k' = k then f (getItem its k) else getItem its k')"
  by (simp add: assign_def getItem_def update_conv')

lemma onChain_mark_committed:
  "onChain (getItem its k) = Some True \<Longrightarrow> onChain (getItem (mark_committed v ks its i) k) = Some True"
  by (cases v) (simp_all add: getItem_assign)

lemma onChain_forEach:
  "onChain (getItem its k) = Some True \<Longrightarrow> onChain (getItem (forEach v ks ixs its) k) = Some True"
  unfolding forEach_def by (induction ixs arbitrary: its) (simp_all add: onChain_mark_committed)

lemma onChain_settle:
  assumes "onChain (getItem (content s) k) = Some True"
  shows "onChain (getItem (content (settle v ks e ixs s)) k) = Some True"
  using assms by (simp add: settle_fields onChain_forEach)

lemma onChain_settle_file:
  assumes "onChain (getItem (content s) k) = Some True" "onChain (getItem (cacheFile s) k) = Some True"
  shows "onChain (getItem (cacheFile (settle v ks e ixs s)) k) = Some True"
  using assms by (simp add: settle_fields onChain_forEach)

text \<open>
  C8. Once the \<open>onChain\<close> flag of an item is true it stays true: every assignment of
  the \<open>forEach\<close> writes \<open>true\<close>, in both versions; a reply (one step of the run, for
  any state, task and outcome) keeps the flag of every item that has it, in memory
  and in the cache file; and so does a whole run.
\<close>

theorem onChain_never_reset:
  "onChain (getItem (mark_committed v ks its i) (ks ! i)) = Some True
   \<and> (onChain (getItem (content s) k) = Some True \<longrightarrow>
        onChain (getItem (content (deliver v acct ks e j s)) k) = Some True)
   \<and> (onChain (getItem (content s) k) = Some True \<and> onChain (getItem (cacheFile s) k) = Some True \<longrightarrow>
        onChain (getItem (cacheFile (deliver v acct ks e j s)) k) = Some True)
   \<and> (onChain (getItem its k) = Some True \<longrightarrow>
        onChain (getItem (content (promise_all v e acct its)) k) = Some True
        \<and> onChain (getItem (cacheFile (promise_all v e acct its)) k) = Some True)"
proof (intro conjI impI)
  show "onChain (getItem (mark_committed v ks its i) (ks ! i)) = Some True"
    by (cases v) (simp_all add: getItem_assign)
next
  assume "onChain (getItem (content s) k) = Some True"
  then show "onChain (getItem (content (deliver v acct ks e j s)) k) = Some True"
    by (cases "tasks s ! j") (simp add: deliver_fields onChain_settle)
next
  assume "onChain (getItem (content s) k) = Some True \<and> onChain (getItem (cacheFile s) k) = Some True"
  then show "onChain (getItem (cacheFile (deliver v acct ks e j s)) k) = Some True"
    by (cases "tasks s ! j") (simp add: deliver_fields onChain_settle_file)
next
  assume its: "onChain (getItem its k) = Some True"
  let ?P = "\<lambda>s::state. onChain (getItem (content s) k) = Some True
                       \<and> onChain (getItem (cacheFile s) k) = Some True"
  have "?P (drive v acct (keys_of its) e (launch acct (keys_of its) its))"
  proof (rule drive_invariant)
    show "?P (launch acct (keys_of its) its)"
      unfolding launch_def launch_closed_form using its by (simp add: initial_def)
  next
    fix s j assume "?P s"
    then show "?P (deliver v acct (keys_of its) e j s)"
      by (cases "tasks s ! j") (simp add: deliver_fields onChain_settle onChain_settle_file)
  qed
  then show "onChain (getItem (content (promise_all v e acct its)) k) = Some True"
    and "onChain (getItem (cacheFile (promise_all v e acct its)) k) = Some True"
    by (simp_all add: promise_all_def Let_def)
qed

theorem onChain_never_reset_witness:
  "onChain (getItem (content (launch ''candy'' (keys_of (example_items 12 (\<lambda>i. (if i < 3 then Some True else None, None))))
                                  (example_items 12 (\<lambda>i. (if i < 3 then Some True else None, None))))) ''2'') = Some True
   \<and> onChain (getItem (cacheFile (launch ''candy'' (keys_of (example_items 12 (\<lambda>i. (if i < 3 then Some True else None, None))))
                                  (example_items 12 (\<lambda>i. (if i < 3 then Some True else None, None))))) ''2'') = Some True
   \<and> onChain (getItem (content (deliver CandyMachineV2 ''candy''
                                  (keys_of (example_items 12 (\<lambda>i. (if i < 3 then Some True else None, None))))
                                  (reject_at [0]) 0
                                  (launch ''candy'' (keys_of (example_items 12 (\<lambda>i. (if i < 3 then Some True else None, None))))
                                     (example_items 12 (\<lambda>i. (if i < 3 then Some True else None, None)))))) ''2'') = Some True
   \<and> onChain (getItem (cacheFile (deliver CandyMachineV2 ''candy''
                                  (keys_of (example_items 12 (\<lambda>i. (if i < 3 then Some True else None, None))))
                                  (reject_at [0]) 0
                                  (launch ''candy'' (keys_of (example_items 12 (\<lambda>i. (if i < 3 then Some True else None, None))))
                                     (example_items 12 (\<lambda>i. (if i < 3 then Some True else None, None)))))) ''2'') = Some True
   \<and> onChain (getItem (example_items 12 (\<lambda>i. (if i < 3 then Some True else None, None))) ''2'') = Some True
   \<and> onChain (getItem (content (promise_all CandyMachineV2 (reject_at [0]) ''candy''
                                  (example_items 12 (\<lambda>i. (if i < 3 then Some True else None, None))))) ''2'') = Some True
   \<and> onChain (getItem (cacheFile (promise_all CandyMachineV2 (reject_at [0]) ''candy''
                                  (example_items 12 (\<lambda>i. (if i < 3 then Some True else None, None))))) ''2'') = Some True"
proof -
  define its where "its = example_items 12 (\<lambda>i. (if i < 3 then Some True else None, None :: bool option))"
  define s where "s = launch ''candy'' (keys_of its) its"
  have i: "onChain (getItem its ''2'') = Some True"
    unfolding its_def by code_simp
  have c: "onChain (getItem (content s) ''2'') = Some True"
    and f: "onChain (getItem (cacheFile s) ''2'') = Some True"
    unfolding s_def launch_def launch_closed_form using i by (simp_all add: initial_def)
  note inst = onChain_never_reset [where v = CandyMachineV2 and ks = "keys_of its" and its = its and i = 0
      and s = s and k = "''2''" and acct = "''candy''" and e = "reject_at [0]" and j = 0]
  from inst c have c': "onChain (getItem (content (deliver CandyMachineV2 ''candy'' (keys_of its) (reject_at [0]) 0 s)) ''2'') = Some True"
    by blast
  from inst c f have f': "onChain (getItem (cacheFile (deliver CandyMachineV2 ''candy'' (keys_of its) (reject_at [0]) 0 s)) ''2'') = Some True"
    by blast
  from inst i have r: "onChain (getItem (content (promise_all CandyMachineV2 (reject_at [0]) ''candy'' its)) ''2'') = Some True"
    "onChain (getItem (cacheFile (promise_all CandyMachineV2 (reject_at [0]) ''candy'' its)) ''2'') = Some True"
    by blast+
  from c f c' f' i r show ?thesis
    unfolding s_def its_def by (intro conjI)
qed

text \<open>
  C9 as stated fails. One record that was never committed (\<open>onChain\<close> absent) and has
  \<open>verifyRun = true\<close>; its first commit, in \<open>lorelabs-cli-v2.ts\<close>, sets \<open>verifyRun\<close> to
  \<open>false\<close>.
\<close>

theorem first_commit_clears_verifyRun:
  "onChain (getItem (example_items 1 (\<lambda>i. (None, Some True))) ''0'') = None
   \<and> verifyRun (getItem (example_items 1 (\<lambda>i. (None, Some True))) ''0'') = Some True
   \<and> resolved (promise_all CandyMachineV2 all_fine ''candy'' (example_items 1 (\<lambda>i. (None, Some True)))) = [[0]]
   \<and> verifyRun (getItem (content (promise_all CandyMachineV2 all_fine ''candy''
                                     (example_items 1 (\<lambda>i. (None, Some True))))) ''0'') = Some False"
  by code_simp

text \<open>
  C9, amended. In \<open>lorelabs-cli-v2.ts\<close> a resolved call sets \<open>verifyRun\<close> to \<open>false\<close> for
  every item of its batch, whatever the item was before (there is no test of an
  earlier commit or of another collection); in \<open>part_000\<close> no commit changes
  \<open>verifyRun\<close>. In both, an item of a batch whose call was rejected or never made keeps
  its \<open>verifyRun\<close> and its \<open>onChain\<close>, and an item of a resolved call has \<open>onChain = true\<close>.
\<close>

theorem verifyRun_after_run:
  assumes "distinct (map fst its)" and "i < length its"
  shows "verifyRun (getItem (content (promise_all v e acct its)) (keys_of its ! i))
           = (if v = CandyMachineV2 \<and> i \<in> touched (promise_all v e acct its)
              then Some False else verifyRun (getItem its (keys_of its ! i)))
         \<and> onChain (getItem (content (promise_all v e acct its)) (keys_of its ! i))
           = (if i \<in> touched (promise_all v e acct its)
              then Some True else onChain (getItem its (keys_of its ! i)))"
  using assms by (cases v) (simp_all add: content_nth getItem_nth)

theorem verifyRun_after_run_witness:
  "distinct (map fst (example_items 11 (\<lambda>i. (None, Some True)))) \<and> 10 < length (example_items 11 (\<lambda>i. (None, Some True)))
   \<and> 3 < length (example_items 11 (\<lambda>i. (None, Some True)))
   \<and> resolved (promise_all CandyMachineV2 (reject_at [0]) ''candy'' (example_items 11 (\<lambda>i. (None, Some True)))) = [[10]]
   \<and> verifyRun (getItem (content (promise_all CandyMachineV2 (reject_at [0]) ''candy'' (example_items 11 (\<lambda>i. (None, Some True)))))
                  (keys_of (example_items 11 (\<lambda>i. (None, Some True))) ! 10)) = Some False
   \<and> verifyRun (getItem (content (promise_all CandyMachineV2 (reject_at [0]) ''candy'' (example_items 11 (\<lambda>i. (None, Some True)))))
                  (keys_of (example_items 11 (\<lambda>i. (None, Some True))) ! 3))
       = verifyRun (getItem (example_items 11 (\<lambda>i. (None, Some True))) (keys_of (example_items 11 (\<lambda>i. (None, Some True))) ! 3))
   \<and> verifyRun (getItem (content (promise_all ConfigV1 (reject_at [0]) ''config'' (example_items 11 (\<lambda>i. (None, Some True)))))
                  (keys_of (example_items 11 (\<lambda>i. (None, Some True))) ! 10))
       = verifyRun (getItem (example_items 11 (\<lambda>i. (None, Some True))) (keys_of (example_items 11 (\<lambda>i. (None, Some True))) ! 10))"
proof -
  define its where "its = example_items 11 (\<lambda>i. (None :: bool option, Some True))"
  have d: "distinct (map fst its)"
    unfolding its_def by code_simp
  have l: "10 < length its" "3 < length its"
    by (simp_all add: its_def example_items_def)
  have r: "resolved (promise_all CandyMachineV2 (reject_at [0]) ''candy'' its) = [[10]]"
    unfolding its_def by code_simp
  then have t: "10 \<in> touched (promise_all CandyMachineV2 (reject_at [0]) ''candy'' its)"
    "3 \<notin> touched (promise_all CandyMachineV2 (reject_at [0]) ''candy'' its)"
    by (simp_all add: touched_def)
  from verifyRun_after_run [OF d l(1), of CandyMachineV2 "reject_at [0]" "''candy''"] t(1)
  have a: "verifyRun (getItem (content (promise_all CandyMachineV2 (reject_at [0]) ''candy'' its)) (keys_of its ! 10)) = Some False"
    by simp
  from verifyRun_after_run [OF d l(2), of CandyMachineV2 "reject_at [0]" "''candy''"] t(2)
  have b: "verifyRun (getItem (content (promise_all CandyMachineV2 (reject_at [0]) ''candy'' its)) (keys_of its ! 3))
      = verifyRun (getItem its (keys_of its ! 3))"
    by simp
  from verifyRun_after_run [OF d l(1), of ConfigV1 "reject_at [0]" "''config''"]
  have c: "verifyRun (getItem (content (promise_all ConfigV1 (reject_at [0]) ''config'' its)) (keys_of its ! 10))
      = verifyRun (getItem its (keys_of its ! 10))"
    by simp
  from d l r a b c show ?thesis
    unfolding its_def by (intro conjI)
qed

section \<open>The two versions side by side\<close>

lemma same_flags:
  assumes d: "distinct (map fst its)"
    and k: "map fst its' = map fst its"
    and f: "map (onChain \<circ> snd) its' = map (onChain \<circ> snd) its"
    and i: "i < length its"
  shows "isOnChain (keys_of its) its' i = isOnChain (keys_of its) its i"
proof -
  from k have l: "length its' = length its"
    by (metis length_map)
  from k d have d': "distinct (map fst its')" and k': "keys_of its' = keys_of its"
    by (simp_all add: keys_of_def)
  from f i l have "(onChain \<circ> snd) (its' ! i) = (onChain \<circ> snd) (its ! i)"
    by (metis nth_map)
  with isOnChain_nth [OF d i] isOnChain_nth [OF d', of i] i l show ?thesis
    by (simp add: k')
qed

text \<open>
  Two runs in the same environment over caches with the same keys and the same
  \<open>onChain\<close> flags, whatever their versions: the tasks, the number of replies and
  the batches sent agree state by state.
\<close>

lemma lockstep:
  assumes "invariant v1 a1 e its chs s1" "invariant v2 a2 e its' chs s2"
    and "distinct (map fst its)" "map fst its' = map fst its"
    and "map (onChain \<circ> snd) its' = map (onChain \<circ> snd) its"
    and "distinct (concat chs)" "\<forall>sl \<in> set chs. \<forall>i \<in> set sl. i < length its"
    and "tasks s1 = tasks s2" "clock s1 = clock s2" "map indexes (sent s1) = map indexes (sent s2)"
    and "ks = keys_of its"
  shows "map indexes (sent (drive v1 a1 ks e s1)) = map indexes (sent (drive v2 a2 ks e s2))"
  using assms
proof (induction v1 a1 ks e s1 arbitrary: s2 rule: drive.induct)
  case (1 v1 a1 ks e s1)
  note inv1 = "1.prems"(1) and inv2 = "1.prems"(2) and d = "1.prems"(3) and k = "1.prems"(4)
    and f = "1.prems"(5) and dc = "1.prems"(6) and rng = "1.prems"(7)
    and ts = "1.prems"(8) and cl = "1.prems"(9) and sn = "1.prems"(10) and ks = "1.prems"(11)
  from k have l: "length its' = length its"
    by (metis length_map)
  from k d have d': "distinct (map fst its')" and k': "keys_of its' = keys_of its"
    by (simp_all add: keys_of_def)
  from rng l have rng': "\<forall>sl \<in> set chs. \<forall>i \<in> set sl. i < length its'"
    by simp
  have aw: "awaiting s2 = awaiting s1"
    by (simp add: awaiting_def ts)
  show ?case
  proof (cases "awaiting s1 = []")
    case True
    with aw sn show ?thesis
      by (subst drive.simps, subst (2) drive.simps) simp
  next
    case False
    let ?j = "awaiting s1 ! (pick e (clock s1) mod length (awaiting s1))"
    have jm: "?j \<in> set (awaiting s1)"
      using False by simp
    then have jm2: "?j \<in> set (awaiting s2)"
      by (simp add: aw)
    obtain sl off where t: "tasks s1 ! ?j = (sl, off)"
      by (cases "tasks s1 ! ?j")
    then have t2: "tasks s2 ! ?j = (sl, off)"
      by (simp add: ts)
    note f1 = deliver_form [OF inv1 d dc rng jm t]
    note f2 = deliver_form [OF inv2 d' dc rng' jm2 t2, unfolded k']
    from f1(5) have "sl \<in> set chs"
      by simp
    have adv0: "advance (keys_of its) its' sl (off + 10) = advance (keys_of its) its sl (off + 10)"
    proof (rule advance_cong)
      fix i assume "i \<in> set (drop (off + 10) sl)"
      then have "i \<in> set sl"
        by (rule in_set_dropD)
      with rng \<open>sl \<in> set chs\<close> have "i < length its"
        by blast
      then show "isOnChain (keys_of its) its' i = isOnChain (keys_of its) its i"
        by (rule same_flags [OF d k f])
    qed
    let ?s1 = "deliver v1 a1 ks e ?j s1" and ?s2 = "deliver v2 a2 ks e ?j s2"
    have r: "tasks ?s1 = tasks ?s2" "clock ?s1 = clock ?s2" "map indexes (sent ?s1) = map indexes (sent ?s2)"
      using f1(1) f2(1) ts cl sn by (simp_all add: ks adv0 comp_def)
    have i1: "invariant v1 a1 e its chs ?s1"
      unfolding ks by (rule deliver_invariant [OF inv1 d dc rng jm])
    have i2: "invariant v2 a2 e its' chs ?s2"
      unfolding ks using deliver_invariant [OF inv2 d' dc rng' jm2] by (simp only: k')
    have "map indexes (sent (drive v1 a1 ks e ?s1)) = map indexes (sent (drive v2 a2 ks e ?s2))"
      by (rule "1.IH" [OF refl False i1 i2 d k f dc rng r ks])
    moreover have "drive v1 a1 ks e s1 = drive v1 a1 ks e ?s1"
      using False by (subst drive.simps) (simp add: Let_def)
    moreover have "drive v2 a2 ks e s2 = drive v2 a2 ks e ?s2"
      using False by (subst drive.simps) (simp add: Let_def aw cl)
    ultimately show ?thesis
      by simp
  qed
qed

lemma request_same_records:
  assumes d: "distinct (map fst its)"
    and k: "map fst its' = map fst its"
    and li: "map (link \<circ> snd) its' = map (link \<circ> snd) its"
    and na: "map (name \<circ> snd) its' = map (name \<circ> snd) its"
    and b: "\<forall>i \<in> set ixs. i < length its"
  shows "ind (request a2 (keys_of its) its' ixs) = ind (request a1 (keys_of its) its ixs)
         \<and> configs (request a2 (keys_of its) its' ixs) = configs (request a1 (keys_of its) its ixs)"
proof -
  from k have l: "length its' = length its"
    by (metis length_map)
  from k d have d': "distinct (map fst its')" and k': "keys_of its' = keys_of its"
    by (simp_all add: keys_of_def)
  have "link (getItem its' (keys_of its ! i)) = link (getItem its (keys_of its ! i))
      \<and> name (getItem its' (keys_of its ! i)) = name (getItem its (keys_of its ! i))"
    if "i \<in> set ixs" for i
  proof -
    from that b have i: "i < length its"
      by blast
    from li i l have "(link \<circ> snd) (its' ! i) = (link \<circ> snd) (its ! i)"
      by (metis nth_map)
    moreover from na i l have "(name \<circ> snd) (its' ! i) = (name \<circ> snd) (its ! i)"
      by (metis nth_map)
    ultimately show ?thesis
      using getItem_nth [OF d i] getItem_nth [OF d', of i] i l by (simp add: k')
  qed
  then show ?thesis
    by (simp add: request_def)
qed

text \<open>
  The chunk tasks of the two versions, run in the same environment (the same
  interleaving and the same outcomes) on items with the same keys and the same
  \<open>onChain\<close> flags, send calls for the same inner batches in the same order; when
  the items also have the same links and names, each call has the same start key
  and the same \<open>(uri, name)\<close> pairs.
\<close>

lemma promise_all_versions:
  assumes "distinct (map fst its)"
    and "map fst its' = map fst its"
    and "map (onChain \<circ> snd) its' = map (onChain \<circ> snd) its"
  shows "map indexes (sent (promise_all ConfigV1 e a1 its))
           = map indexes (sent (promise_all CandyMachineV2 e a2 its'))
         \<and> (map (link \<circ> snd) its' = map (link \<circ> snd) its \<and> map (name \<circ> snd) its' = map (name \<circ> snd) its \<longrightarrow>
              map (\<lambda>c. (ind c, configs c)) (sent (promise_all ConfigV1 e a1 its))
                = map (\<lambda>c. (ind c, configs c)) (sent (promise_all CandyMachineV2 e a2 its')))"
proof -
  let ?ks = "keys_of its"
  let ?chs = "chunks (array_keys (length its)) 1000"
  let ?l1 = "foldl (start a1 ?ks) (initial its) ?chs"
  let ?l2 = "foldl (start a2 ?ks) (initial its') ?chs"
  let ?s1 = "promise_all ConfigV1 e a1 its" and ?s2 = "promise_all CandyMachineV2 e a2 its'"
  note d = assms(1) and k = assms(2) and f = assms(3)
  from k have l: "length its' = length its"
    by (metis length_map)
  from k d have d': "distinct (map fst its')" and k': "keys_of its' = ?ks"
    by (simp_all add: keys_of_def)
  note st = chunks_static [of "length its"]
  have p1: "?s1 = drive ConfigV1 a1 ?ks e ?l1"
    by (simp add: promise_all_def launch_def Let_def keys_of_def)
  have p2: "?s2 = drive CandyMachineV2 a2 ?ks e ?l2"
    by (simp add: promise_all_def launch_def Let_def k' l) (simp add: keys_of_def)
  have i1: "invariant ConfigV1 a1 e its ?chs ?l1"
    by (rule launch_invariant)
  have i2: "invariant CandyMachineV2 a2 e its' ?chs ?l2"
    using launch_invariant [of CandyMachineV2 a2 e its' ?chs] by (simp only: k')
  have adv: "advance ?ks its' sl 0 = advance ?ks its sl 0" if "sl \<in> set ?chs" for sl
  proof (rule advance_cong)
    fix i assume "i \<in> set (drop 0 sl)"
    with st(2) that have "i < length its"
      by auto
    then show "isOnChain ?ks its' i = isOnChain ?ks its i"
      by (rule same_flags [OF d k f])
  qed
  then have t: "map (\<lambda>sl. (sl, advance ?ks its' sl 0)) ?chs = map (\<lambda>sl. (sl, advance ?ks its sl 0)) ?chs"
    and n: "map (\<lambda>sl. inflight (sl, advance ?ks its' sl 0)) ?chs
          = map (\<lambda>sl. inflight (sl, advance ?ks its sl 0)) ?chs"
    by simp_all
  have r: "tasks ?l1 = tasks ?l2" "clock ?l1 = clock ?l2" "map indexes (sent ?l1) = map indexes (sent ?l2)"
    unfolding launch_closed_form by (simp_all add: initial_def t n comp_def)
  have same: "map indexes (sent ?s1) = map indexes (sent ?s2)"
    unfolding p1 p2 by (rule lockstep [OF i1 i2 d k f st r refl])
  moreover have "map (\<lambda>c. (ind c, configs c)) (sent ?s1) = map (\<lambda>c. (ind c, configs c)) (sent ?s2)"
    if li: "map (link \<circ> snd) its' = map (link \<circ> snd) its" and na: "map (name \<circ> snd) its' = map (name \<circ> snd) its"
  proof -
    let ?B = "map indexes (sent ?s1)"
    have s1: "sent ?s1 = map (request a1 ?ks its) ?B"
      by (rule promise_all_sent(3) [OF d])
    have s2: "sent ?s2 = map (request a2 ?ks its') ?B"
      using promise_all_sent(3) [OF d', of CandyMachineV2 e a2] by (simp only: k' same)
    have "set ?B = set (filter (pending ?ks its) (all_batches (length its)))"
      using promise_all_sent(1) [OF d, of ConfigV1 e a1] by (rule mset_eq_setD)
    then have "\<forall>i \<in> set b. i < length its" if "b \<in> set ?B" for b
      using that all_batches_member(2) [of b "length its"] by simp
    then have "(ind (request a1 ?ks its b), configs (request a1 ?ks its b))
             = (ind (request a2 ?ks its' b), configs (request a2 ?ks its' b))" if "b \<in> set ?B" for b
      using request_same_records [OF d k li na, of b a2 a1] that by simp
    then have "map (\<lambda>b. (ind (request a1 ?ks its b), configs (request a1 ?ks its b))) ?B
             = map (\<lambda>b. (ind (request a2 ?ks its' b), configs (request a2 ?ks its' b))) ?B"
      by (intro map_cong) simp_all
    then show ?thesis
      by (subst s1, subst s2) (simp only: map_map comp_def)
  qed
  ultimately show ?thesis
    by blast
qed

text \<open>
  C10 as stated fails. The two functions read different fields of \<open>program\<close>. On the
  cache that the creation command of \<open>part_000\<close> writes (\<open>program.config\<close> set,
  \<open>program.candyMachine\<close> absent), with one record not on chain, the function of
  \<open>part_000\<close> sends the batch \<open>[0]\<close>, and the function of \<open>lorelabs-cli-v2.ts\<close> throws
  \<open>missing program config\<close> and sends nothing. And keys and \<open>onChain\<close> flags do not
  fix the requests: on two caches that differ in a link only, the calls carry
  different \<open>(uri, name)\<close> pairs.
\<close>

theorem versions_differ_on_a_config_only_cache:
  "map indexes (snd (snd (addConfigLines ConfigV1 all_fine
      (Some \<lparr>program = Some (new_program ConfigV1 ''uuid01'' ''config''), authority = Some ''wallet'',
             items = Some (example_items 1 (\<lambda>i. (None, None)))\<rparr>)))) = [[0]]
   \<and> addConfigLines CandyMachineV2 all_fine
        (Some \<lparr>program = Some (new_program ConfigV1 ''uuid01'' ''config''), authority = Some ''wallet'',
               items = Some (example_items 1 (\<lambda>i. (None, None)))\<rparr>)
       = (Inl (Error ''missing program config''),
          Some \<lparr>program = Some (new_program ConfigV1 ''uuid01'' ''config''), authority = Some ''wallet'',
                items = Some (example_items 1 (\<lambda>i. (None, None)))\<rparr>,
          [])
   \<and> map configs (snd (snd (addConfigLines ConfigV1 all_fine
        (Some (example_cache (example_items 1 (\<lambda>i. (None, None)))))))) = [[(''u0'', ''n0'')]]
   \<and> map configs (snd (snd (addConfigLines CandyMachineV2 all_fine
        (Some (example_cache (map (\<lambda>(k, it). (k, it\<lparr>link := ''x''\<rparr>))
                                  (example_items 1 (\<lambda>i. (None, None))))))))) = [[(''x'', ''n0'')]]"
  by code_simp

text \<open>
  C10, amended. Take two caches with the same item keys and the same \<open>onChain\<close>
  flags, in each of which the function that runs on it finds its remote account
  (\<open>program.config\<close>, not empty, for \<open>part_000\<close>; \<open>program.candyMachine\<close>, not empty, for
  \<open>lorelabs-cli-v2.ts\<close>), and run the two functions in the same environment (the same
  interleaving of the chunk tasks, the same outcomes of calls and saves). Then they
  submit the same inner batches in the same order; and when the caches also have
  the same links and names, each request has the same start key and the same
  \<open>(uri, name)\<close> pairs in the same order. (The accounts of the requests differ. A
  function that does not find its account throws \<open>missing program config\<close> and
  submits nothing.)
\<close>

theorem addConfigLines_versions_agree:
  assumes "distinct (map fst its)"
    and "map fst its' = map fst its"
    and "map (onChain \<circ> snd) its' = map (onChain \<circ> snd) its"
    and "items c = Some its" "program c = Some p" "account_of ConfigV1 p = Some a1" "a1 \<noteq> []"
    and "items c' = Some its'" "program c' = Some p'" "account_of CandyMachineV2 p' = Some a2" "a2 \<noteq> []"
  shows "map indexes (snd (snd (addConfigLines ConfigV1 e (Some c))))
           = map indexes (snd (snd (addConfigLines CandyMachineV2 e (Some c'))))
         \<and> (map (link \<circ> snd) its' = map (link \<circ> snd) its \<and> map (name \<circ> snd) its' = map (name \<circ> snd) its \<longrightarrow>
              map (\<lambda>r. (ind r, configs r)) (snd (snd (addConfigLines ConfigV1 e (Some c))))
                = map (\<lambda>r. (ind r, configs r)) (snd (snd (addConfigLines CandyMachineV2 e (Some c')))))
         \<and> (program c0 = Some p0 \<and> (account_of v p0 = None \<or> account_of v p0 = Some []) \<longrightarrow>
              addConfigLines v e (Some c0) = (Inl (Error ''missing program config''), Some c0, []))"
proof -
  have 1: "snd (snd (addConfigLines ConfigV1 e (Some c))) = sent (promise_all ConfigV1 e a1 its)"
    by (simp add: addConfigLines_configured [OF assms(4-7)])
  have 2: "snd (snd (addConfigLines CandyMachineV2 e (Some c'))) = sent (promise_all CandyMachineV2 e a2 its')"
    by (simp add: addConfigLines_configured [OF assms(8-11)])
  have 3: "addConfigLines v e (Some c0) = (Inl (Error ''missing program config''), Some c0, [])"
    if "program c0 = Some p0 \<and> (account_of v p0 = None \<or> account_of v p0 = Some [])"
    using that by (auto simp: addConfigLines_def)
  from promise_all_versions [OF assms(1-3), of e a1 a2] 3 show ?thesis
    unfolding 1 2 by blast
qed

theorem addConfigLines_versions_agree_witness:
  "distinct (map fst (example_items 11 (\<lambda>i. (None, Some True))))
   \<and> map fst (example_items 11 (\<lambda>i. (None, None))) = map fst (example_items 11 (\<lambda>i. (None, Some True)))
   \<and> map (onChain \<circ> snd) (example_items 11 (\<lambda>i. (None, None)))
       = map (onChain \<circ> snd) (example_items 11 (\<lambda>i. (None, Some True)))
   \<and> map (link \<circ> snd) (example_items 11 (\<lambda>i. (None, None)))
       = map (link \<circ> snd) (example_items 11 (\<lambda>i. (None, Some True)))
   \<and> map (name \<circ> snd) (example_items 11 (\<lambda>i. (None, None)))
       = map (name \<circ> snd) (example_items 11 (\<lambda>i. (None, Some True)))
   \<and> account_of ConfigV1 \<lparr>uuid = ''uuid01'', candyMachine = Some ''candy'', config = Some ''config''\<rparr> = Some ''config''
   \<and> account_of CandyMachineV2 \<lparr>uuid = ''uuid01'', candyMachine = Some ''candy'', config = Some ''config''\<rparr> = Some ''candy''
   \<and> map indexes (snd (snd (addConfigLines ConfigV1 (reject_at [0])
                               (Some (example_cache (example_items 11 (\<lambda>i. (None, Some True))))))))
       = [[0, 1, 2, 3, 4, 5, 6, 7, 8, 9], [10]]
   \<and> map indexes (snd (snd (addConfigLines CandyMachineV2 (reject_at [0])
                               (Some (example_cache (example_items 11 (\<lambda>i. (None, None))))))))
       = [[0, 1, 2, 3, 4, 5, 6, 7, 8, 9], [10]]
   \<and> map (\<lambda>r. (ind r, configs r))
         (snd (snd (addConfigLines ConfigV1 (reject_at [0])
                      (Some (example_cache (example_items 11 (\<lambda>i. (None, Some True))))))))
       = map (\<lambda>r. (ind r, configs r))
           (snd (snd (addConfigLines CandyMachineV2 (reject_at [0])
                        (Some (example_cache (example_items 11 (\<lambda>i. (None, None))))))))
   \<and> account_of CandyMachineV2 (new_program ConfigV1 ''uuid01'' ''config'') = None
   \<and> addConfigLines CandyMachineV2 (reject_at [0])
         (Some \<lparr>program = Some (new_program ConfigV1 ''uuid01'' ''config''), authority = None, items = None\<rparr>)
       = (Inl (Error ''missing program config''),
          Some \<lparr>program = Some (new_program ConfigV1 ''uuid01'' ''config''), authority = None, items = None\<rparr>, [])"
proof -
  define its where "its = example_items 11 (\<lambda>i. (None :: bool option, Some True))"
  define its' where "its' = example_items 11 (\<lambda>i. (None :: bool option, None :: bool option))"
  define p where "p = \<lparr>uuid = ''uuid01'', candyMachine = Some ''candy'', config = Some ''config''\<rparr>"
  define c0 where "c0 = \<lparr>program = Some (new_program ConfigV1 ''uuid01'' ''config''),
                          authority = None :: string option, items = None :: (key \<times> item) list option\<rparr>"
  have d: "distinct (map fst its)"
    unfolding its_def by code_simp
  have k: "map fst its' = map fst its"
    and f: "map (onChain \<circ> snd) its' = map (onChain \<circ> snd) its"
    and li: "map (link \<circ> snd) its' = map (link \<circ> snd) its"
    and na: "map (name \<circ> snd) its' = map (name \<circ> snd) its"
    by (simp_all add: its_def its'_def example_items_def)
  have i: "items (example_cache its) = Some its" and pr: "program (example_cache its) = Some p"
    and i': "items (example_cache its') = Some its'" and pr': "program (example_cache its') = Some p"
    by (simp_all add: example_cache_def p_def)
  have a1: "account_of ConfigV1 p = Some ''config''" and n1: "''config'' \<noteq> []"
    and a2: "account_of CandyMachineV2 p = Some ''candy''" and n2: "''candy'' \<noteq> []"
    by (simp_all add: p_def)
  have p0: "program c0 = Some (new_program ConfigV1 ''uuid01'' ''config'')"
    and a0: "account_of CandyMachineV2 (new_program ConfigV1 ''uuid01'' ''config'') = None"
    by (simp_all add: c0_def)
  have v1: "map indexes (snd (snd (addConfigLines ConfigV1 (reject_at [0]) (Some (example_cache its)))))
      = [[0, 1, 2, 3, 4, 5, 6, 7, 8, 9], [10]]"
    unfolding its_def by code_simp
  note inst = addConfigLines_versions_agree [OF d k f i pr a1 n1 i' pr' a2 n2,
      where e = "reject_at [0]" and ?c0.0 = c0 and ?p0.0 = "new_program ConfigV1 ''uuid01'' ''config''"
        and v = CandyMachineV2]
  from inst have same: "map indexes (snd (snd (addConfigLines ConfigV1 (reject_at [0]) (Some (example_cache its)))))
      = map indexes (snd (snd (addConfigLines CandyMachineV2 (reject_at [0]) (Some (example_cache its')))))"
    by (rule conjunct1)
  from v1 same have v2: "map indexes (snd (snd (addConfigLines CandyMachineV2 (reject_at [0]) (Some (example_cache its')))))
      = [[0, 1, 2, 3, 4, 5, 6, 7, 8, 9], [10]]"
    by (simp only:)
  from inst li na have rq: "map (\<lambda>r. (ind r, configs r))
        (snd (snd (addConfigLines ConfigV1 (reject_at [0]) (Some (example_cache its)))))
      = map (\<lambda>r. (ind r, configs r))
          (snd (snd (addConfigLines CandyMachineV2 (reject_at [0]) (Some (example_cache its')))))"
    by blast
  from inst p0 a0 have g: "addConfigLines CandyMachineV2 (reject_at [0]) (Some c0)
      = (Inl (Error ''missing program config''), Some c0, [])"
    by blast
  from d k f li na a1 a2 v1 v2 rq a0 g show ?thesis
    unfolding its_def its'_def p_def c0_def by (intro conjI)
qed

section \<open>The guards of the creation command\<close>

text \<open>
  With a program in the cache, or with an \<open>items\<close> object that has no key, the command
  throws the error of its guard before any remote call, and the cache file is as it
  was.
\<close>

lemma creation_guards:
  "program c \<noteq> None \<Longrightarrow>
     create_candy_machine v su e (Some c)
       = (Inl (Error ''a program existed previously. clear it our first if you intent to create a new candy machine''),
          Some c, [])"
  "program c = None \<Longrightarrow> items c = Some [] \<Longrightarrow>
     create_candy_machine v su e (Some c) = (Inl (Error ''no items in cacheContent''), Some c, [])"
  by (simp_all add: create_candy_machine_def keys_of_def)

text \<open>
  C6 is not what the code does for a cache without \<open>items\<close>. Without a cache file
  (\<open>loadCache\<close> returns \<open>undefined\<close>, and \<open>cacheContent\<close> is \<open>{}\<close>), or with a cache
  that has no \<open>items\<close> field, \<open>Object.keys(items)\<close> runs before the test \<open>!items\<close> and
  throws a \<open>TypeError\<close>: the error of the guard, \<open>no items in cacheContent\<close>, is never
  thrown for such a cache. (No remote call is made and the cache file is as it was.)
\<close>

theorem create_without_items_throws_TypeError:
  "create_candy_machine v su e None = (Inl TypeError, None, [])
   \<and> create_candy_machine v su e (Some \<lparr>program = None, authority = a, items = None\<rparr>)
       = (Inl TypeError, Some \<lparr>program = None, authority = a, items = None\<rparr>, [])
   \<and> Inl TypeError \<noteq> (Inl (Error ''no items in cacheContent'') :: error + bool)"
  by (simp add: create_candy_machine_def)

text \<open>The command on a cache that passes the guards: the remote calls it makes.\<close>

lemma create_then_sync:
  "create_candy_machine CandyMachineV2
     \<lparr>wallet = Some ''wallet'', program_loaded = True, created = Some (''uuid01'', ''candy''), cache_saved = True\<rparr>
     all_fine (Some \<lparr>program = None, authority = None, items = Some (example_items 1 (\<lambda>i. (None, None)))\<rparr>)
   = (Inr True,
      Some \<lparr>program = Some \<lparr>uuid = ''uuid01'', candyMachine = Some ''candy'', config = None\<rparr>,
            authority = Some ''wallet'', items = Some (example_items 1 (\<lambda>i. (Some True, Some False)))\<rparr>,
      [LoadCandyProgram, CreateCandyMachine 1,
       AddConfigLines \<lparr>indexes = [0], ind = ''0'', configs = [(''u0'', ''n0'')], account = ''candy''\<rparr>])"
  by code_simp

end
